theory Spec2Isabelle
  imports Complex_Main "HOL-Library.Multiset"
begin

section \<open>Floating-point values\<close>

text \<open>
  The numbers of \<^verbatim>\<open>es/legacy/train.py\<close> are Python floats, numpy scalars and the
  elements of torch tensors. A value is a finite real or one of the three IEEE special
  values, which the source tests for with \<^verbatim>\<open>np.isnan\<close> and \<^verbatim>\<open>np.isinf\<close>.
  Arithmetic on finite values is exact: rounding, overflow and the sign of zero are not
  part of the model. The special values follow IEEE 754.
\<close>

datatype fl = Fin real | PInf | NInf | NaN

type_synonym tensor = "fl list"

datatype error =
    AssertionError
  | ZeroDivisionError
  | IndexError
  | AttributeError
  | RuntimeError
  | ValueError

fun isnan :: "fl \<Rightarrow> bool" where
  "isnan NaN = True"
| "isnan _ = False"

fun isinf :: "fl \<Rightarrow> bool" where
  "isinf PInf = True"
| "isinf NInf = True"
| "isinf _ = False"

fun val :: "fl \<Rightarrow> real" where
  "val (Fin r) = r"
| "val _ = 0"

fun fl_neg :: "fl \<Rightarrow> fl" where
  "fl_neg (Fin r) = Fin (- r)"
| "fl_neg PInf = NInf"
| "fl_neg NInf = PInf"
| "fl_neg NaN = NaN"

fun fl_add :: "fl \<Rightarrow> fl \<Rightarrow> fl" where
  "fl_add (Fin a) (Fin b) = Fin (a + b)"
| "fl_add NaN _ = NaN"
| "fl_add _ NaN = NaN"
| "fl_add PInf NInf = NaN"
| "fl_add NInf PInf = NaN"
| "fl_add PInf _ = PInf"
| "fl_add _ PInf = PInf"
| "fl_add NInf _ = NInf"
| "fl_add _ NInf = NInf"

definition fl_sub :: "fl \<Rightarrow> fl \<Rightarrow> fl" where
  "fl_sub a b = fl_add a (fl_neg b)"

text \<open>An infinity times a finite value: the sign of the product, NaN at zero.\<close>

definition inf_times :: "bool \<Rightarrow> real \<Rightarrow> fl" where
  "inf_times pos r =
     (if r = 0 then NaN else if (0 < r) = pos then PInf else NInf)"

fun fl_mul :: "fl \<Rightarrow> fl \<Rightarrow> fl" where
  "fl_mul (Fin a) (Fin b) = Fin (a * b)"
| "fl_mul NaN _ = NaN"
| "fl_mul _ NaN = NaN"
| "fl_mul PInf (Fin b) = inf_times True b"
| "fl_mul NInf (Fin b) = inf_times False b"
| "fl_mul (Fin a) PInf = inf_times True a"
| "fl_mul (Fin a) NInf = inf_times False a"
| "fl_mul PInf PInf = PInf"
| "fl_mul NInf NInf = PInf"
| "fl_mul PInf NInf = NInf"
| "fl_mul NInf PInf = NInf"

text \<open>
  Division of numpy scalars and torch tensors: a division by zero gives an infinity or
  NaN and no exception.
\<close>

fun fl_div :: "fl \<Rightarrow> fl \<Rightarrow> fl" where
  "fl_div (Fin a) (Fin b) =
     (if b = 0 then (if a = 0 then NaN else if 0 < a then PInf else NInf)
      else Fin (a / b))"
| "fl_div NaN _ = NaN"
| "fl_div _ NaN = NaN"
| "fl_div (Fin a) PInf = Fin 0"
| "fl_div (Fin a) NInf = Fin 0"
| "fl_div PInf (Fin b) = (if 0 \<le> b then PInf else NInf)"
| "fl_div NInf (Fin b) = (if 0 \<le> b then NInf else PInf)"
| "fl_div PInf PInf = NaN"
| "fl_div PInf NInf = NaN"
| "fl_div NInf PInf = NaN"
| "fl_div NInf NInf = NaN"

text \<open>
  Division of Python scalars, as in \<^verbatim>\<open>1/n\<close> and \<^verbatim>\<open>1/(args.agents*args.sigma**2)\<close>:
  a zero divisor raises ZeroDivisionError.
\<close>

definition py_div :: "fl \<Rightarrow> fl \<Rightarrow> error + fl" where
  "py_div a b = (if b = Fin 0 then Inl ZeroDivisionError else Inr (fl_div a b))"

fun fl_exp :: "fl \<Rightarrow> fl" where
  "fl_exp (Fin r) = Fin (exp r)"
| "fl_exp PInf = PInf"
| "fl_exp NInf = Fin 0"
| "fl_exp NaN = NaN"

fun fl_log :: "fl \<Rightarrow> fl" where
  "fl_log (Fin r) = (if 0 < r then Fin (ln r) else if r = 0 then NInf else NaN)"
| "fl_log PInf = PInf"
| "fl_log _ = NaN"

fun fl_sqrt :: "fl \<Rightarrow> fl" where
  "fl_sqrt (Fin r) = (if 0 \<le> r then Fin (sqrt r) else NaN)"
| "fl_sqrt PInf = PInf"
| "fl_sqrt _ = NaN"

text \<open>Comparison: every comparison with NaN is false.\<close>

fun fl_lt :: "fl \<Rightarrow> fl \<Rightarrow> bool" where
  "fl_lt (Fin a) (Fin b) = (a < b)"
| "fl_lt NaN _ = False"
| "fl_lt _ NaN = False"
| "fl_lt NInf NInf = False"
| "fl_lt NInf _ = True"
| "fl_lt _ NInf = False"
| "fl_lt PInf _ = False"
| "fl_lt _ PInf = True"

definition fl_le :: "fl \<Rightarrow> fl \<Rightarrow> bool" where
  "fl_le a b = (fl_lt a b \<or> (a = b \<and> \<not> isnan a))"

text \<open>\<^verbatim>\<open>np.max\<close> and \<^verbatim>\<open>tensor.max()\<close> of two values; NaN propagates.\<close>

definition fl_max :: "fl \<Rightarrow> fl \<Rightarrow> fl" where
  "fl_max a b = (if isnan a \<or> isnan b then NaN else if fl_lt a b then b else a)"

text \<open>\<^verbatim>\<open>np.sum\<close> and \<^verbatim>\<open>tensor.sum()\<close>.\<close>

definition np_sum :: "tensor \<Rightarrow> fl" where
  "np_sum xs = foldl fl_add (Fin 0) xs"

text \<open>\<^verbatim>\<open>np.isnan(t).any()\<close> and \<^verbatim>\<open>np.isinf(t).any()\<close>.\<close>

definition any_nan :: "tensor \<Rightarrow> bool" where
  "any_nan t = list_ex isnan t"

definition any_inf :: "tensor \<Rightarrow> bool" where
  "any_inf t = list_ex isinf t"

section \<open>Fitness shaping\<close>

text \<open>
  \<^verbatim>\<open>np.argsort(a)\<close>: the indices that sort \<^verbatim>\<open>a\<close> in ascending order, NaN last.
  numpy's default sort leaves the order of equal elements open; the model takes the
  stable order. The key maps a value to its place in numpy's sort order.
\<close>

fun sort_key_fl :: "fl \<Rightarrow> nat \<times> real" where
  "sort_key_fl NInf = (0, 0)"
| "sort_key_fl (Fin r) = (1, r)"
| "sort_key_fl PInf = (2, 0)"
| "sort_key_fl NaN = (3, 0)"

definition key_le :: "nat \<times> real \<Rightarrow> nat \<times> real \<Rightarrow> bool" where
  "key_le a b = (fst a < fst b \<or> (fst a = fst b \<and> snd a \<le> snd b))"

fun insert_index :: "tensor \<Rightarrow> nat \<Rightarrow> nat list \<Rightarrow> nat list" where
  "insert_index a i [] = [i]"
| "insert_index a i (j # js) =
     (if key_le (sort_key_fl (a ! i)) (sort_key_fl (a ! j)) then i # j # js
      else j # insert_index a i js)"

definition argsort :: "tensor \<Rightarrow> nat list" where
  "argsort a = foldr (insert_index a) [0..<length a] []"

text \<open>The utility of rank \<open>k\<close> among \<open>n\<close>: \<^verbatim>\<open>np.max([0, np.log(n/2+1)-np.log(k+1)])\<close>.\<close>

definition utility :: "nat \<Rightarrow> nat \<Rightarrow> fl" where
  "utility n k =
     fl_max (Fin 0) (fl_sub (fl_log (Fin (real n / 2 + 1))) (fl_log (Fin (real k + 1))))"

text \<open>The loop \<^verbatim>\<open>for k in range(n): u[sorted_indices[k]] = ...\<close> on \<^verbatim>\<open>u = np.zeros(n)\<close>.\<close>

definition assign_utilities :: "nat list \<Rightarrow> nat \<Rightarrow> tensor" where
  "assign_utilities sorted_indices n =
     fold (\<lambda>k u. u[sorted_indices ! k := utility n k]) [0..<n] (replicate n (Fin 0))"

text \<open>
  The body of \<^verbatim>\<open>fitness_shaping\<close> after the sort. \<^verbatim>\<open>u/np.sum(u)\<close> is a numpy
  division; \<^verbatim>\<open>1/n\<close> divides Python scalars and raises for \<open>n = 0\<close>.
\<close>

definition shape_from :: "nat list \<Rightarrow> nat \<Rightarrow> error + tensor" where
  "shape_from sorted_indices n =
     (let u = assign_utilities sorted_indices n;
          s = np_sum u
      in case py_div (Fin 1) (Fin (real n)) of
           Inl e \<Rightarrow> Inl e
         | Inr c \<Rightarrow> Inr (map (\<lambda>x. fl_sub (fl_div x s) c) u))"

definition fitness_shaping :: "tensor \<Rightarrow> error + tensor" where
  "fitness_shaping returns =
     shape_from (argsort (map fl_neg returns)) (length returns)"

text \<open>
  The rank utility as the specification writes it,
  \<open>max(0, log(N/2+1) - log(k+1))\<close>, over the reals.
\<close>

definition rank_utility :: "nat \<Rightarrow> nat \<Rightarrow> real" where
  "rank_utility n k = max 0 (ln (real n / 2 + 1) - ln (real k + 1))"

text \<open>Index \<open>i\<close> comes no later than index \<open>j\<close> in numpy's ascending order of \<open>a\<close>.\<close>

definition in_order :: "tensor \<Rightarrow> nat \<Rightarrow> nat \<Rightarrow> bool" where
  "in_order a i j = key_le (sort_key_fl (a ! i)) (sort_key_fl (a ! j))"

section \<open>Parameters, arguments and the torch generator\<close>

text \<open>
  A parameter of a model: its flattened \<^verbatim>\<open>data\<close> and its \<^verbatim>\<open>grad\<close>, which is
  \<^verbatim>\<open>None\<close> until a backward pass or \<^verbatim>\<open>compute_sensitivities\<close> allocates it. In
  torch the gradient has the shape of the data.
\<close>

record param =
  data :: tensor
  grad :: "tensor option"

type_synonym model = "param list"

definition param_ok :: "param \<Rightarrow> bool" where
  "param_ok p = (case grad p of None \<Rightarrow> False | Some t \<Rightarrow> length t = length (data p))"

text \<open>The fields of \<^verbatim>\<open>args\<close> that the training code reads; \<^verbatim>\<open>beta\<close> may be absent.\<close>

record args =
  agents :: nat
  sigma :: fl
  beta :: "fl option"
  optimize_sigma :: bool
  safe_mutation :: bool
  max_generations :: int

text \<open>
  The global torch generator: \<^verbatim>\<open>torch.manual_seed\<close> sets its state from the seed and
  every element that \<^verbatim>\<open>normal_(0,1)\<close> fills in is one draw that advances the state.
  The generator itself belongs to torch and is a parameter of the model.
\<close>

record 'g generator =
  manual_seed :: "int \<Rightarrow> 'g"
  randn :: "'g \<Rightarrow> fl \<times> 'g"

fun normal_fill :: "'g generator \<Rightarrow> nat \<Rightarrow> 'g \<Rightarrow> tensor \<times> 'g" where
  "normal_fill R 0 g = ([], g)"
| "normal_fill R (Suc n) g =
     (case randn R g of (x, g1) \<Rightarrow>
        (case normal_fill R n g1 of (xs, g2) \<Rightarrow> (x # xs, g2)))"

text \<open>
  A generator to run the model on: the state is a counter that the seed sets, and every
  draw returns the counter and increments it.
\<close>

definition counter_generator :: "nat generator" where
  "counter_generator = \<lparr>manual_seed = (\<lambda>s. nat s), randn = (\<lambda>g. (Fin (real g), Suc g))\<rparr>"

text \<open>\<^verbatim>\<open>tensor.std()\<close>: the sample standard deviation, NaN for fewer than two elements.\<close>

definition fl_std :: "tensor \<Rightarrow> fl" where
  "fl_std xs =
     (if xs = [] then NaN
      else let n = Fin (real (length xs));
               mean = fl_div (np_sum xs) n;
               ss = np_sum (map (\<lambda>x. fl_mul (fl_sub x mean) (fl_sub x mean)) xs)
           in fl_sqrt (fl_div ss (fl_sub n (Fin 1))))"

definition get_pertubation ::
  "'g generator \<Rightarrow> args \<Rightarrow> param \<Rightarrow> 'g \<Rightarrow> error + (tensor \<times> 'g)" where
  "get_pertubation R a p g =
     (case normal_fill R (length (data p)) g of (eps, g') \<Rightarrow>
        if safe_mutation a then
          (case grad p of
             None \<Rightarrow> Inl AttributeError
           | Some s \<Rightarrow>
               let eps1 = map2 fl_div eps s;
                   eps2 = map (\<lambda>e. fl_div e (fl_std eps1)) eps1
               in Inr (eps2, g'))
        else Inr (eps, g'))"

section \<open>Antithetic perturbation\<close>

text \<open>
  Modelled from the spec: \<^verbatim>\<open>es_parameters\<close> is a method of the model classes that
  \<^verbatim>\<open>es/models.py\<close> does not define. The specification perturbs the policy parameters,
  one ordered sequence of tensors, so it is the whole parameter sequence, as
  \<^verbatim>\<open>parameters()\<close> is in \<^verbatim>\<open>compute_gradients\<close>.
\<close>

definition es_parameters :: "model \<Rightarrow> param list" where
  "es_parameters m = m"

text \<open>A new instance of the model class after \<^verbatim>\<open>load_state_dict\<close>: the data, no gradient.\<close>

definition load_state_dict :: "model \<Rightarrow> model" where
  "load_state_dict m = map (\<lambda>p. p\<lparr>grad := None\<rparr>) m"

text \<open>\<^verbatim>\<open>param1.data += args.sigma*eps\<close> and \<^verbatim>\<open>param2.data -= args.sigma*eps\<close>.\<close>

definition add_scaled :: "tensor \<Rightarrow> fl \<Rightarrow> tensor \<Rightarrow> tensor" where
  "add_scaled d s eps = map2 fl_add d (map (fl_mul s) eps)"

definition sub_scaled :: "tensor \<Rightarrow> fl \<Rightarrow> tensor \<Rightarrow> tensor" where
  "sub_scaled d s eps = map2 fl_sub d (map (fl_mul s) eps)"

text \<open>The loop over \<^verbatim>\<open>zip(model1.es_parameters(), model2.es_parameters(), parent...)\<close>.\<close>

fun perturb_loop ::
  "'g generator \<Rightarrow> args \<Rightarrow> param list \<Rightarrow> param list \<Rightarrow> param list \<Rightarrow> 'g
     \<Rightarrow> error + (param list \<times> param list)" where
  "perturb_loop R a (p1 # m1) (p2 # m2) (pp # ps) g =
     (case get_pertubation R a pp g of
        Inl e \<Rightarrow> Inl e
      | Inr (eps, g') \<Rightarrow>
          let d1 = add_scaled (data p1) (sigma a) eps;
              d2 = sub_scaled (data p2) (sigma a) eps
          in if any_nan d1 then Inl AssertionError
             else if any_inf d1 then Inl AssertionError
             else if any_nan d2 then Inl AssertionError
             else if any_inf d2 then Inl AssertionError
             else (case perturb_loop R a m1 m2 ps g' of
                     Inl e \<Rightarrow> Inl e
                   | Inr (r1, r2) \<Rightarrow> Inr (p1\<lparr>data := d1\<rparr> # r1, p2\<lparr>data := d2\<rparr> # r2)))"
| "perturb_loop R a m1 m2 ps g = Inr (m1, m2)"

definition perturb_model ::
  "'g generator \<Rightarrow> args \<Rightarrow> model \<Rightarrow> int \<Rightarrow> error + model list" where
  "perturb_model R a parent_model random_seed =
     (let model1 = load_state_dict parent_model;
          model2 = load_state_dict parent_model
      in case perturb_loop R a (es_parameters model1) (es_parameters model2)
                (es_parameters parent_model) (manual_seed R random_seed) of
           Inl e \<Rightarrow> Inl e
         | Inr (m1, m2) \<Rightarrow> Inr [m1, m2])"

text \<open>
  The noise tensors of one seed, one per parameter, in the order in which the loops of
  \<^verbatim>\<open>perturb_model\<close> and \<^verbatim>\<open>compute_gradients\<close> draw them after seeding.
\<close>

fun draw_layers :: "'g generator \<Rightarrow> args \<Rightarrow> param list \<Rightarrow> 'g \<Rightarrow> error + tensor list" where
  "draw_layers R a [] g = Inr []"
| "draw_layers R a (p # ps) g =
     (case get_pertubation R a p g of
        Inl e \<Rightarrow> Inl e
      | Inr (eps, g') \<Rightarrow>
          (case draw_layers R a ps g' of Inl e \<Rightarrow> Inl e | Inr r \<Rightarrow> Inr (eps # r)))"

definition noise :: "'g generator \<Rightarrow> args \<Rightarrow> model \<Rightarrow> int \<Rightarrow> error + tensor list" where
  "noise R a m seed = draw_layers R a m (manual_seed R seed)"

section \<open>Sensitivities\<close>

text \<open>
  \<^verbatim>\<open>compute_sensitivities\<close>. The forward pass and autograd belong to torch:
  \<open>backward idx\<close> is the list of \<^verbatim>\<open>param.grad.data\<close>, one tensor per parameter of the
  parent model, after \<^verbatim>\<open>outputs.backward\<close> with the one-hot signal of output unit
  \<open>idx\<close>. The flags \<^verbatim>\<open>do_square\<close>, \<^verbatim>\<open>do_square_root\<close>, \<^verbatim>\<open>do_normalize\<close> and
  \<^verbatim>\<open>do_numerical\<close> are constants of the source and true, \<^verbatim>\<open>do_abs\<close> is false.
\<close>

definition squared :: "tensor list \<Rightarrow> tensor list" where
  "squared ts = map (map (\<lambda>x. fl_mul x x)) ts"

definition accumulate_sensitivities :: "(nat \<Rightarrow> tensor list) \<Rightarrow> nat \<Rightarrow> tensor list" where
  "accumulate_sensitivities backward n_outputs =
     fold (\<lambda>idx sensitivities.
             if idx = 0 then sensitivities @ squared (backward idx)
             else map2 (map2 fl_add) sensitivities (squared (backward idx)))
          [0..<n_outputs] []"

definition root_sum_squares :: "(nat \<Rightarrow> tensor list) \<Rightarrow> nat \<Rightarrow> tensor list" where
  "root_sum_squares backward n_outputs =
     map (map fl_sqrt) (accumulate_sensitivities backward n_outputs)"

text \<open>\<^verbatim>\<open>tensor.max()\<close>; torch raises on an empty tensor.\<close>

definition tensor_max :: "tensor \<Rightarrow> error + fl" where
  "tensor_max t = (case t of [] \<Rightarrow> Inl RuntimeError | x # xs \<Rightarrow> Inr (fold fl_max xs x))"

text \<open>\<^verbatim>\<open>sensitivities[pid]/sensitivities[pid].max()\<close>.\<close>

definition normalize_tensor :: "tensor \<Rightarrow> error + tensor" where
  "normalize_tensor t =
     (case tensor_max t of Inl e \<Rightarrow> Inl e | Inr m \<Rightarrow> Inr (map (\<lambda>x. fl_div x m) t))"

fun normalize_all :: "tensor list \<Rightarrow> error + tensor list" where
  "normalize_all [] = Inr []"
| "normalize_all (t # ts) =
     (case normalize_tensor t of
        Inl e \<Rightarrow> Inl e
      | Inr t' \<Rightarrow> (case normalize_all ts of Inl e \<Rightarrow> Inl e | Inr ts' \<Rightarrow> Inr (t' # ts')))"

text \<open>
  The two masked assignments, in the order of the source: first
  \<^verbatim>\<open>s[s < 1e-5] = 1\<close>, then \<^verbatim>\<open>s[s > 1e5] = 1e5\<close>.
\<close>

definition numerical :: "tensor \<Rightarrow> tensor" where
  "numerical t =
     (let t1 = map (\<lambda>x. if fl_lt x (Fin (1 / 100000)) then Fin 1 else x) t
      in map (\<lambda>x. if fl_lt (Fin 100000) x then Fin 100000 else x) t1)"

fun set_sensitivities :: "param list \<Rightarrow> tensor list \<Rightarrow> error + param list" where
  "set_sensitivities [] ss = Inr []"
| "set_sensitivities (p # ps) [] = Inl IndexError"
| "set_sensitivities (p # ps) (s # ss) =
     (if any_nan s then Inl AssertionError
      else if any_inf s then Inl AssertionError
      else (case set_sensitivities ps ss of
              Inl e \<Rightarrow> Inl e
            | Inr ps' \<Rightarrow> Inr (p\<lparr>grad := Some s\<rparr> # ps')))"

definition compute_sensitivities ::
  "model \<Rightarrow> (nat \<Rightarrow> tensor list) \<Rightarrow> nat \<Rightarrow> error + model" where
  "compute_sensitivities parent_model backward n_outputs =
     (case normalize_all (root_sum_squares backward n_outputs) of
        Inl e \<Rightarrow> Inl e
      | Inr normalized \<Rightarrow> set_sensitivities parent_model (map numerical normalized))"

section \<open>Gradient estimation\<close>

text \<open>
  The inner loop of \<^verbatim>\<open>compute_gradients\<close> over the layers, for one sample with shaped
  return \<open>retrn\<close> and antithetic \<open>multiplier\<close>. It adds to the weight gradients and, when
  \<^verbatim>\<open>args.optimize_sigma\<close> is set, to the beta gradient.
\<close>

definition beta_term :: "args \<Rightarrow> fl \<Rightarrow> fl \<Rightarrow> tensor \<Rightarrow> fl" where
  "beta_term a b retrn eps =
     fl_mul (fl_mul (fl_div (Fin 1) (fl_mul (Fin (real (agents a))) (fl_exp b))) retrn)
            (fl_sub (np_sum (map (\<lambda>e. fl_mul e e) eps)) (Fin 1))"

fun sample_layers ::
  "'g generator \<Rightarrow> args \<Rightarrow> fl \<Rightarrow> fl \<Rightarrow> param list \<Rightarrow> tensor list \<Rightarrow> fl \<Rightarrow> 'g
     \<Rightarrow> error + (tensor list \<times> fl)" where
  "sample_layers R a retrn multiplier [] ws bg g = Inr (ws, bg)"
| "sample_layers R a retrn multiplier (p # ps) [] bg g = Inl IndexError"
| "sample_layers R a retrn multiplier (p # ps) (w # ws) bg g =
     (case get_pertubation R a p g of
        Inl e \<Rightarrow> Inl e
      | Inr (eps, g') \<Rightarrow>
         (case py_div (Fin 1) (fl_mul (Fin (real (agents a))) (fl_mul (sigma a) (sigma a))) of
            Inl e \<Rightarrow> Inl e
          | Inr c \<Rightarrow>
             let w' = map2 fl_add w (map (\<lambda>e. fl_mul c (fl_mul (fl_mul retrn multiplier) e)) eps)
             in (case (if optimize_sigma a
                       then (case beta a of
                               None \<Rightarrow> Inl AttributeError
                             | Some b \<Rightarrow> Inr (fl_add bg (beta_term a b retrn eps)))
                       else Inr bg) of
                   Inl e \<Rightarrow> Inl e
                 | Inr bg' \<Rightarrow>
                    (case sample_layers R a retrn multiplier ps ws bg' g' of
                       Inl e \<Rightarrow> Inl e
                     | Inr (ws', bg'') \<Rightarrow> Inr (w' # ws', bg'')))))"

text \<open>The outer loop \<^verbatim>\<open>for i in range(args.agents)\<close>.\<close>

fun sample_loop ::
  "'g generator \<Rightarrow> args \<Rightarrow> model \<Rightarrow> tensor \<Rightarrow> int list \<Rightarrow> bool list \<Rightarrow> nat list
     \<Rightarrow> tensor list \<Rightarrow> fl \<Rightarrow> error + (tensor list \<times> fl)" where
  "sample_loop R a m shaped_returns random_seeds is_anti_list [] ws bg = Inr (ws, bg)"
| "sample_loop R a m shaped_returns random_seeds is_anti_list (i # is) ws bg =
     (if length is_anti_list \<le> i then Inl IndexError
      else
        let multiplier = (if is_anti_list ! i then Fin (- 1) else Fin 1);
            retrn = shaped_returns ! i
        in (case sample_layers R a retrn multiplier m ws bg (manual_seed R (random_seeds ! i)) of
              Inl e \<Rightarrow> Inl e
            | Inr (ws', bg') \<Rightarrow>
                sample_loop R a m shaped_returns random_seeds is_anti_list is ws' bg'))"

text \<open>
  The gradients as accumulated, before they are negated and stored: the input checks,
  the shaping and the two loops, from zero tensors and a zero beta gradient.
\<close>

definition accumulate_gradients ::
  "'g generator \<Rightarrow> args \<Rightarrow> model \<Rightarrow> tensor \<Rightarrow> int list \<Rightarrow> bool list
     \<Rightarrow> error + (tensor list \<times> fl)" where
  "accumulate_gradients R a parent_model returns random_seeds is_anti_list =
     (if length returns \<noteq> agents a then Inl AssertionError
      else if length random_seeds \<noteq> length returns then Inl AssertionError
      else (case fitness_shaping returns of
              Inl e \<Rightarrow> Inl e
            | Inr shaped_returns \<Rightarrow>
                sample_loop R a parent_model shaped_returns random_seeds is_anti_list
                  [0..<agents a]
                  (map (\<lambda>p. replicate (length (data p)) (Fin 0)) parent_model) (Fin 0)))"

text \<open>
  The loop that stores \<^verbatim>\<open>param.grad.data = - weight_gradients[layer]\<close> and asserts on
  each stored tensor.
\<close>

fun set_gradients :: "param list \<Rightarrow> tensor list \<Rightarrow> error + param list" where
  "set_gradients [] ws = Inr []"
| "set_gradients (p # ps) [] = Inl IndexError"
| "set_gradients (p # ps) (w # ws) =
     (case grad p of
        None \<Rightarrow> Inl AttributeError
      | Some t \<Rightarrow>
          let stored = map fl_neg w
          in if any_nan stored then Inl AssertionError
             else if any_inf stored then Inl AssertionError
             else (case set_gradients ps ws of
                     Inl e \<Rightarrow> Inl e
                   | Inr ps' \<Rightarrow> Inr (p\<lparr>grad := Some stored\<rparr> # ps')))"

text \<open>
  The beta gradient \<^verbatim>\<open>args.beta.grad = - beta_gradient\<close> and its assertion. With no
  parameter tensor \<^verbatim>\<open>beta_gradient\<close> is still the integer 0, which has no \<^verbatim>\<open>data\<close>.
\<close>

definition set_beta_gradient :: "args \<Rightarrow> model \<Rightarrow> fl \<Rightarrow> error + fl option" where
  "set_beta_gradient a parent_model bg =
     (if optimize_sigma a then
        (case beta a of
           None \<Rightarrow> Inl AttributeError
         | Some b \<Rightarrow>
             if parent_model = [] then Inl AttributeError
             else if isnan (fl_neg bg) then Inl AssertionError
             else Inr (Some (fl_neg bg)))
      else Inr None)"

text \<open>
  \<^verbatim>\<open>compute_gradients\<close>: the parent model with the stored gradients, and
  \<^verbatim>\<open>args.beta.grad\<close> when sigma is optimised.
\<close>

definition compute_gradients ::
  "'g generator \<Rightarrow> args \<Rightarrow> model \<Rightarrow> tensor \<Rightarrow> int list \<Rightarrow> bool list
     \<Rightarrow> error + (model \<times> fl option)" where
  "compute_gradients R a parent_model returns random_seeds is_anti_list =
     (case accumulate_gradients R a parent_model returns random_seeds is_anti_list of
        Inl e \<Rightarrow> Inl e
      | Inr (weight_gradients, beta_gradient) \<Rightarrow>
          (case set_gradients parent_model weight_gradients of
             Inl e \<Rightarrow> Inl e
           | Inr m' \<Rightarrow>
               (case set_beta_gradient a parent_model beta_gradient of
                  Inl e \<Rightarrow> Inl e
                | Inr bgrad \<Rightarrow> Inr (m', bgrad))))"

text \<open>
  The same accumulation over the reals, for finite values: one sample adds
  \<open>c * (rm * y)\<close> to every element, where \<open>y\<close> is the noise of that element; and
  the beta terms of the tensors of one sample, added in order.
\<close>

definition add_sample :: "real \<Rightarrow> real \<Rightarrow> real list list \<Rightarrow> real list list \<Rightarrow> real list list" where
  "add_sample c rm W E = map2 (\<lambda>w e. map2 (\<lambda>x y. x + c * (rm * y)) w e) W E"

definition beta_accumulate :: "args \<Rightarrow> fl \<Rightarrow> fl \<Rightarrow> fl \<Rightarrow> real list list \<Rightarrow> fl" where
  "beta_accumulate a b retrn bg E =
     foldl (\<lambda>acc e. fl_add acc (beta_term a b retrn (map Fin e))) bg E"

text \<open>The antithetic sign of sample \<open>i\<close>.\<close>

definition sign_of :: "bool list \<Rightarrow> nat \<Rightarrow> real" where
  "sign_of is_anti_list i = (if is_anti_list ! i then - 1 else 1)"


text \<open>
  The weight gradients and the beta gradient after all \<open>N\<close> samples, from zero, for
  finite weights \<open>w\<close> and finite noise \<open>E i\<close> of sample \<open>i\<close>.
\<close>

definition accumulated_weights ::
  "real \<Rightarrow> real list \<Rightarrow> bool list \<Rightarrow> (nat \<Rightarrow> real list list) \<Rightarrow> model \<Rightarrow> nat
     \<Rightarrow> real list list" where
  "accumulated_weights c w is_anti_list E m N =
     foldl (\<lambda>W i. add_sample c (w ! i * sign_of is_anti_list i) W (E i))
       (map (\<lambda>p. replicate (length (data p)) 0) m) [0..<N]"

definition accumulated_beta ::
  "args \<Rightarrow> fl \<Rightarrow> real list \<Rightarrow> (nat \<Rightarrow> real list list) \<Rightarrow> nat \<Rightarrow> fl" where
  "accumulated_beta a b w E N =
     foldl (\<lambda>acc i. if optimize_sigma a
                     then beta_accumulate a b (Fin (w ! i)) acc (E i) else acc)
       (Fin 0) [0..<N]"

section \<open>Sigma controller\<close>

text \<open>
  The block of \<^verbatim>\<open>train_loop\<close> after \<^verbatim>\<open>optimizer.step()\<close>, under
  \<^verbatim>\<open>if hasattr(args, 'beta')\<close>.
\<close>

definition new_sigma :: "fl \<Rightarrow> fl" where
  "new_sigma b = fl_sqrt (fl_mul (Fin (1 / 2)) (fl_exp b))"

definition clamp_sigma :: "fl \<Rightarrow> fl \<Rightarrow> fl" where
  "clamp_sigma sigma_prev ns =
     (if fl_lt (fl_mul sigma_prev (Fin (12 / 10))) ns then fl_mul sigma_prev (Fin (12 / 10))
      else if fl_lt ns (fl_mul sigma_prev (Fin (8 / 10))) then fl_mul sigma_prev (Fin (8 / 10))
      else ns)"

definition adapt_sigma :: "args \<Rightarrow> args" where
  "adapt_sigma a =
     (case beta a of
        None \<Rightarrow> a
      | Some b \<Rightarrow>
          let s = clamp_sigma (sigma a) (new_sigma b)
          in a\<lparr>sigma := s, beta := Some (fl_log (fl_mul (Fin 2) (fl_mul s s)))\<rparr>)"

section \<open>Seeds and dispatch\<close>

text \<open>
  numpy's global generator is a parameter of the model: a state and a function that
  yields a raw natural number and the next state. \<^verbatim>\<open>np.random.randint(high)\<close> returns
  an integer of \<open>[0, high)\<close>, here the raw number reduced to that range.
\<close>

type_synonym 'h np_random = "'h \<Rightarrow> nat \<times> 'h"

definition randint :: "'h np_random \<Rightarrow> nat \<Rightarrow> 'h \<Rightarrow> int \<times> 'h" where
  "randint NP high h = (case NP h of (x, h') \<Rightarrow> (int (x mod high), h'))"

text \<open>The size of the seed space, \<^verbatim>\<open>2**30\<close>.\<close>

definition seed_space :: nat where
  "seed_space = 2 ^ 30"

text \<open>
  The loop \<^verbatim>\<open>for j in range(int(args.agents/2))\<close> of \<^verbatim>\<open>train_loop\<close>: a seed, the two
  perturbed models of that seed, the seed appended twice.
\<close>

fun generate_loop ::
  "'g generator \<Rightarrow> 'h np_random \<Rightarrow> args \<Rightarrow> model \<Rightarrow> nat \<Rightarrow> 'h \<Rightarrow> int list \<Rightarrow> model list
     \<Rightarrow> error + (int list \<times> model list \<times> 'h)" where
  "generate_loop R NP a parent_model 0 h seeds models = Inr (seeds, models, h)"
| "generate_loop R NP a parent_model (Suc n) h seeds models =
     (case randint NP seed_space h of (random_seed, h') \<Rightarrow>
        (case perturb_model R a parent_model random_seed of
           Inl e \<Rightarrow> Inl e
         | Inr two_models \<Rightarrow>
             generate_loop R NP a parent_model n h'
               (seeds @ [random_seed, random_seed]) (models @ two_models)))"

text \<open>
  The loop \<^verbatim>\<open>while models:\<close> that pops a model and a seed from the end and starts a
  worker on \<^verbatim>\<open>(perturbed_model, seed, is_negative)\<close>, then \<^verbatim>\<open>assert len(seeds) == 0\<close>.
  The result lists the worker inputs in the order in which the workers start.
\<close>

function dispatch_loop ::
  "model list \<Rightarrow> int list \<Rightarrow> bool \<Rightarrow> error + (model \<times> int \<times> bool) list" where
  "dispatch_loop models seeds is_negative =
     (if models = [] then (if seeds = [] then Inr [] else Inl AssertionError)
      else if seeds = [] then Inl IndexError
      else (case dispatch_loop (butlast models) (butlast seeds) (\<not> is_negative) of
              Inl e \<Rightarrow> Inl e
            | Inr rest \<Rightarrow> Inr ((last models, last seeds, is_negative) # rest)))"
  by pat_completeness auto
termination
  by (relation "measure (\<lambda>(models, seeds, is_negative). length models)") auto

declare dispatch_loop.simps [simp del]

definition dispatch_generation ::
  "'g generator \<Rightarrow> 'h np_random \<Rightarrow> args \<Rightarrow> model \<Rightarrow> 'h
     \<Rightarrow> error + ((model \<times> int \<times> bool) list \<times> 'h)" where
  "dispatch_generation R NP a parent_model h =
     (case generate_loop R NP a parent_model (agents a div 2) h [] [] of
        Inl e \<Rightarrow> Inl e
      | Inr (seeds, models, h') \<Rightarrow>
          if length seeds \<noteq> length models then Inl AssertionError
          else (case dispatch_loop models seeds True of
                  Inl e \<Rightarrow> Inl e
                | Inr dispatched \<Rightarrow> Inr (dispatched, h')))"

text \<open>The pair of models that \<^verbatim>\<open>perturb_model\<close> returns for a seed, empty when it fails.\<close>

definition two_models :: "'g generator \<Rightarrow> args \<Rightarrow> model \<Rightarrow> int \<Rightarrow> model list" where
  "two_models R a parent_model random_seed =
     (case perturb_model R a parent_model random_seed of Inl e \<Rightarrow> [] | Inr ms \<Rightarrow> ms)"

text \<open>The seeds that \<open>n\<close> successive calls of \<^verbatim>\<open>np.random.randint(2**30)\<close> return.\<close>

fun drawn_seeds :: "'h np_random \<Rightarrow> nat \<Rightarrow> 'h \<Rightarrow> int list" where
  "drawn_seeds NP 0 h = []"
| "drawn_seeds NP (Suc n) h =
     (case randint NP seed_space h of (random_seed, h') \<Rightarrow> random_seed # drawn_seeds NP n h')"

section \<open>Start of the training loop and checkpoints\<close>










section \<open>Verification: fitness shaping\<close>

lemma foldl_fl_add_Fin: "foldl fl_add (Fin a) (map Fin xs) = Fin (a + sum_list xs)"
  by (induction xs arbitrary: a) (simp_all add: add.assoc)

lemma np_sum_Fin: "np_sum (map Fin xs) = Fin (sum_list xs)"
  by (simp add: np_sum_def foldl_fl_add_Fin)

lemma utility_Fin: "utility n k = Fin (rank_utility n k)"
proof -
  have "0 < real n / 2 + 1" "0 < real k + 1" by (simp_all add: add_pos_nonneg)
  then show ?thesis
    by (simp add: utility_def rank_utility_def fl_max_def fl_sub_def max_def)
qed

lemma rank_utility_nonneg: "0 \<le> rank_utility n k"
  by (simp add: rank_utility_def)

lemma rank_utility_first: "0 < n \<Longrightarrow> 0 < rank_utility n 0"
  by (simp add: rank_utility_def)

lemma assign_prefix:
  assumes "distinct si" "length si = n" "set si = {0..<n}" "m \<le> n"
  shows "length (fold (\<lambda>k u. u[si ! k := utility n k]) [0..<m] u0) = length u0
       \<and> (\<forall>k<m. length u0 = n \<longrightarrow> fold (\<lambda>k u. u[si ! k := utility n k]) [0..<m] u0 ! (si ! k) = utility n k)"
  using assms(4)
proof (induction m)
  case 0
  then show ?case by simp
next
  case (Suc m)
  then have IH: "length (fold (\<lambda>k u. u[si ! k := utility n k]) [0..<m] u0) = length u0"
     "\<And>k. k < m \<Longrightarrow> length u0 = n \<Longrightarrow> fold (\<lambda>k u. u[si ! k := utility n k]) [0..<m] u0 ! (si ! k) = utility n k"
    by simp_all
  have lt: "si ! m < n" using assms Suc.prems by (metis Suc_le_lessD atLeastLessThan_iff nth_mem)
  have neq: "k < m \<Longrightarrow> si ! m \<noteq> si ! k" for k
    using assms Suc.prems by (simp add: nth_eq_iff_index_eq)
  show ?case using IH lt neq
    by (auto simp: less_Suc_eq)
qed

lemma assign_utilities_nth:
  assumes "distinct si" "length si = n" "set si = {0..<n}" "k < n"
  shows "assign_utilities si n ! (si ! k) = Fin (rank_utility n k)"
  using assign_prefix[OF assms(1-3) le_refl, of "replicate n (Fin 0)"] assms(4)
  by (simp add: assign_utilities_def utility_Fin)

lemma assign_utilities_length:
  "length (assign_utilities si n) = n"
proof -
  have "length (fold (\<lambda>k u. u[si ! k := utility n k]) ks u0) = length u0" for ks u0
    by (induction ks arbitrary: u0) simp_all
  then show ?thesis by (simp add: assign_utilities_def)
qed


lemma perm_sum_nth:
  fixes ur :: "real list"
  assumes "mset si = mset [0..<length ur]"
  shows "sum_list (map (\<lambda>k. ur ! (si ! k)) [0..<length ur]) = sum_list ur"
proof -
  have len: "length si = length ur" using assms by (metis length_upt mset_eq_length minus_nat.diff_0)
  have "map (\<lambda>k. ur ! (si ! k)) [0..<length ur] = map ((!) ur) si"
    using len by (intro nth_equalityI) simp_all
  moreover have "mset (map ((!) ur) si) = mset (map ((!) ur) [0..<length ur])"
    using assms by (metis mset_map)
  moreover have "map ((!) ur) [0..<length ur] = ur" by (simp add: map_nth)
  ultimately show ?thesis by (metis sum_mset_sum_list)
qed

lemma sum_list_shift:
  fixes xs :: "real list"
  shows "sum_list (map (\<lambda>x. x / s - c) xs) = sum_list xs / s - real (length xs) * c"
  by (induction xs) (simp_all add: algebra_simps add_divide_distrib)

lemma sum_rank_utility_pos: "0 < n \<Longrightarrow> 0 < sum_list (map (rank_utility n) [0..<n])"
proof -
  assume "0 < n"
  then have "[0..<n] = 0 # [1..<n]" by (simp add: upt_rec)
  then have "sum_list (map (rank_utility n) [0..<n]) = rank_utility n 0 + sum_list (map (rank_utility n) [1..<n])"
    by simp
  moreover have "0 \<le> sum_list (map (rank_utility n) [1..<n])"
    by (rule sum_list_nonneg) (auto simp: rank_utility_nonneg)
  ultimately show ?thesis using rank_utility_first[OF \<open>0 < n\<close>] by linarith
qed


lemma mset_insert_index: "mset (insert_index a i js) = add_mset i (mset js)"
  by (induction js) simp_all

lemma mset_argsort: "mset (argsort a) = mset [0..<length a]"
proof -
  have "mset (foldr (insert_index a) xs []) = mset xs" for xs
    by (induction xs) (simp_all add: mset_insert_index)
  then show ?thesis by (simp add: argsort_def)
qed

lemma key_le_total: "key_le a b \<or> key_le b a"
  by (auto simp: key_le_def)

lemma key_le_trans: "key_le a b \<Longrightarrow> key_le b c \<Longrightarrow> key_le a c"
  by (auto simp: key_le_def)

lemma set_insert_index: "set (insert_index a i js) = insert i (set js)"
  by (induction js) auto

lemma sorted_insert_index:
  "sorted_wrt (in_order a) js \<Longrightarrow> sorted_wrt (in_order a) (insert_index a i js)"
proof (induction js)
  case Nil
  then show ?case by simp
next
  case (Cons j js)
  show ?case
  proof (cases "key_le (sort_key_fl (a ! i)) (sort_key_fl (a ! j))")
    case True
    then have "in_order a i j" by (simp add: in_order_def)
    moreover have "\<forall>x\<in>set js. in_order a i x"
      using Cons.prems \<open>in_order a i j\<close> key_le_trans unfolding in_order_def by auto
    ultimately show ?thesis using True Cons.prems by simp
  next
    case False
    then have "in_order a j i"
      using key_le_total[of "sort_key_fl (a ! i)" "sort_key_fl (a ! j)"] by (simp add: in_order_def)
    then show ?thesis using False Cons by (auto simp: set_insert_index)
  qed
qed

lemma sorted_argsort: "sorted_wrt (in_order a) (argsort a)"
proof -
  have "sorted_wrt (in_order a) (foldr (insert_index a) xs [])" for xs
    by (induction xs) (simp_all add: sorted_insert_index)
  then show ?thesis by (simp add: argsort_def)
qed

lemma perm_upt_props:
  assumes "mset si = mset [0..<n]"
  shows "distinct si" "length si = n" "set si = {0..<n}"
proof -
  show "distinct si" using assms by (metis distinct_upt mset_eq_imp_distinct_iff)
  show "length si = n" using assms by (metis length_upt mset_eq_length minus_nat.diff_0)
  show "set si = {0..<n}" using assms by (metis mset_eq_setD set_upt)
qed

lemma assign_utilities_Fin:
  assumes "mset si = mset [0..<n]"
  shows "\<exists>ur. assign_utilities si n = map Fin ur \<and> length ur = n
            \<and> (\<forall>k<n. ur ! (si ! k) = rank_utility n k)"
proof -
  note p = perm_upt_props[OF assms]
  let ?u = "assign_utilities si n"
  have cover: "\<exists>k<n. si ! k = i" if "i < n" for i
    using that p by (metis atLeastLessThan_iff in_set_conv_nth zero_le)
  have fin: "?u ! i = Fin (val (?u ! i))" if lt: "i < n" for i
  proof -
    obtain k where "k < n" "si ! k = i" using cover lt by blast
    then show ?thesis using assign_utilities_nth[OF p, of k] by auto
  qed
  have "?u = map Fin (map val ?u)"
    by (intro nth_equalityI) (simp_all add: assign_utilities_length fin[symmetric])
  moreover have "\<forall>k<n. map val ?u ! (si ! k) = rank_utility n k"
  proof (intro allI impI)
    fix k assume "k < n"
    then have "si ! k < n" using p by (metis atLeastLessThan_iff nth_mem)
    then show "map val ?u ! (si ! k) = rank_utility n k"
      using assign_utilities_nth[OF p(1) p(2) p(3) \<open>k < n\<close>] by (simp add: assign_utilities_length)
  qed
  ultimately show ?thesis by (metis assign_utilities_length length_map)
qed

lemma shape_from_perm:
  assumes "mset si = mset [0..<n]" "0 < n"
  shows "\<exists>w. shape_from si n = Inr (map Fin w) \<and> length w = n \<and> sum_list w = 0
           \<and> (\<forall>k<n. w ! (si ! k) =
                 rank_utility n k / sum_list (map (rank_utility n) [0..<n]) - 1 / real n)"
proof -
  obtain ur where ur: "assign_utilities si n = map Fin ur" "length ur = n"
      "\<forall>k<n. ur ! (si ! k) = rank_utility n k"
    using assign_utilities_Fin[OF assms(1)] by blast
  let ?S = "sum_list (map (rank_utility n) [0..<n])"
  have "sum_list (map (\<lambda>k. ur ! (si ! k)) [0..<length ur]) = sum_list ur"
    using perm_sum_nth[of si ur] assms(1) ur(2) by simp
  moreover have "map (\<lambda>k. ur ! (si ! k)) [0..<length ur] = map (rank_utility n) [0..<n]"
    using ur by (intro nth_equalityI) simp_all
  ultimately have S: "sum_list ur = ?S" by simp
  have Spos: "0 < ?S" using sum_rank_utility_pos[OF assms(2)] .
  let ?w = "map (\<lambda>x. x / ?S - 1 / real n) ur"
  have "shape_from si n = Inr (map Fin ?w)"
    using assms(2) Spos
    by (simp add: shape_from_def Let_def ur(1) np_sum_Fin S py_div_def fl_sub_def o_def)
  moreover have "sum_list ?w = 0"
    using sum_list_shift[of ?S "1 / real n" ur] S Spos assms(2) ur(2) by simp
  moreover have "\<forall>k<n. ?w ! (si ! k) = rank_utility n k / ?S - 1 / real n"
  proof (intro allI impI)
    fix k assume "k < n"
    then have "si ! k < length ur"
      using perm_upt_props[OF assms(1)] ur(2) by (metis atLeastLessThan_iff nth_mem)
    then show "?w ! (si ! k) = rank_utility n k / ?S - 1 / real n"
      using ur(3) \<open>k < n\<close> by simp
  qed
  ultimately show ?thesis using ur(2) by (metis length_map)
qed

lemma in_order_neg_descending:
  assumes "in_order (map fl_neg rs) i j" "i < length rs" "j < length rs"
    "rs ! i = Fin x" "rs ! j = Fin y"
  shows "y \<le> x"
  using assms by (simp add: in_order_def key_le_def)

lemma fitness_shaping_example:
  "fitness_shaping [Fin 1, Fin 3] = Inr [Fin (- 1 / 2), Fin (1 / 2)]"
proof -
  have a: "argsort [Fin (- 1), Fin (- 3)] = [Suc 0, 0]"
    by (simp add: argsort_def key_le_def upt_rec)
  have u: "assign_utilities [Suc 0, 0] (Suc (Suc 0)) = [Fin 0, Fin (ln 2)]"
    by (simp add: assign_utilities_def utility_def fl_max_def fl_sub_def upt_rec)
  show ?thesis
    by (simp add: fitness_shaping_def a shape_from_def u np_sum_def py_div_def fl_sub_def)
qed

text \<open>
  C2. For every list of returns of length \<open>N \<ge> 2\<close>, \<^verbatim>\<open>fitness_shaping\<close> succeeds with
  finite weights; the indices it sorts by are a permutation of \<open>0..<N\<close> in descending
  order of the returns; the return of rank \<open>k\<close> gets the weight
  \<open>max(0, log(N/2+1) - log(k+1))\<close> divided by the sum of all utilities, minus \<open>1/N\<close>;
  and the weights sum to zero, whatever the returns are.
\<close>

theorem fitness_shaping_centered_rank:
  assumes "2 \<le> length returns"
  shows "\<exists>w. fitness_shaping returns = Inr (map Fin w)
           \<and> length w = length returns
           \<and> sum_list w = 0
           \<and> np_sum (map Fin w) = Fin 0
           \<and> mset (argsort (map fl_neg returns)) = mset [0..<length returns]
           \<and> sorted_wrt (in_order (map fl_neg returns)) (argsort (map fl_neg returns))
           \<and> (\<forall>k<length returns.
                 w ! (argsort (map fl_neg returns) ! k) =
                   rank_utility (length returns) k
                     / sum_list (map (rank_utility (length returns)) [0..<length returns])
                   - 1 / real (length returns))"
proof -
  let ?n = "length returns"
  let ?si = "argsort (map fl_neg returns)"
  have perm: "mset ?si = mset [0..<?n]" using mset_argsort[of "map fl_neg returns"] by simp
  have pos: "0 < ?n" using assms by linarith
  obtain w where w: "shape_from ?si ?n = Inr (map Fin w)" "length w = ?n" "sum_list w = 0"
    "\<forall>k<?n. w ! (?si ! k) =
        rank_utility ?n k / sum_list (map (rank_utility ?n) [0..<?n]) - 1 / real ?n"
    using shape_from_perm[OF perm pos] by blast
  have "fitness_shaping returns = Inr (map Fin w)"
    using w(1) by (simp add: fitness_shaping_def)
  moreover have "np_sum (map Fin w) = Fin 0" using w(3) by (simp add: np_sum_Fin)
  ultimately show ?thesis using w perm sorted_argsort[of "map fl_neg returns"] by blast
qed

theorem fitness_shaping_centered_rank_witness:
  "2 \<le> length [Fin 1, Fin 3]
   \<and> (\<exists>w. fitness_shaping [Fin 1, Fin 3] = Inr (map Fin w) \<and> sum_list w = 0
           \<and> np_sum (map Fin w) = Fin 0)"
proof -
  have h: "2 \<le> length [Fin 1, Fin 3]" by simp
  show ?thesis using h fitness_shaping_centered_rank[OF h] by blast
qed

section \<open>Verification: sigma controller\<close>

lemma new_sigma_cases:
  "new_sigma (Fin r) = Fin (sqrt (exp r / 2))" "new_sigma PInf = PInf" "new_sigma NInf = Fin 0"
  by (simp_all add: new_sigma_def inf_times_def)

lemma adapt_sigma_sigma: "beta a = Some b \<Longrightarrow> sigma (adapt_sigma a) = clamp_sigma (sigma a) (new_sigma b)"
  by (simp add: adapt_sigma_def Let_def)

lemma new_sigma_range:
  "\<not> isnan b \<Longrightarrow> (\<exists>q\<ge>0. new_sigma b = Fin q) \<or> new_sigma b = PInf"
  by (cases b) (simp_all add: new_sigma_cases)

lemma clamp_factor:
  assumes "\<not> isnan sg" "(\<exists>q\<ge>0. ns = Fin q) \<or> ns = PInf"
  shows "\<exists>f. 8 / 10 \<le> f \<and> f \<le> 12 / 10 \<and> clamp_sigma sg ns = fl_mul sg (Fin f)"
proof (cases sg)
  case (Fin s)
  from assms(2) show ?thesis
  proof
    assume "\<exists>q\<ge>0. ns = Fin q"
    then obtain q where q: "0 \<le> q" "ns = Fin q" by blast
    consider "s * (12 / 10) < q" | "\<not> s * (12 / 10) < q" "q < s * (8 / 10)"
      | "\<not> s * (12 / 10) < q" "\<not> q < s * (8 / 10)" by blast
    then show ?thesis
    proof cases
      case 1
      then have "clamp_sigma sg ns = fl_mul sg (Fin (12 / 10))"
        by (simp add: clamp_sigma_def Fin q)
      then show ?thesis by (intro exI[of _ "12 / 10"]) simp
    next
      case 2
      then have "clamp_sigma sg ns = fl_mul sg (Fin (8 / 10))"
        by (simp add: clamp_sigma_def Fin q)
      then show ?thesis by (intro exI[of _ "8 / 10"]) simp
    next
      case 3
      then have c: "clamp_sigma sg ns = Fin q" by (simp add: clamp_sigma_def Fin q)
      show ?thesis
      proof (cases "s = 0")
        case True
        then have "q = 0" using 3 q(1) by simp
        then show ?thesis using c Fin True by (intro exI[of _ 1]) simp
      next
        case False
        have spos: "0 < s"
        proof (rule ccontr)
          assume "\<not> 0 < s"
          then have "s < 0" using False by simp
          then have "s * (12 / 10) < 0" by (simp add: mult_neg_pos)
          then show False using 3 q(1) by linarith
        qed
        have "8 / 10 \<le> q / s" "q / s \<le> 12 / 10"
          using 3 spos by (simp_all add: field_simps)
        moreover have "clamp_sigma sg ns = fl_mul sg (Fin (q / s))"
          using c Fin spos by simp
        ultimately show ?thesis by blast
      qed
    qed
  next
    assume "ns = PInf"
    then have "clamp_sigma sg ns = fl_mul sg (Fin (12 / 10))"
      by (simp add: clamp_sigma_def Fin)
    then show ?thesis by (intro exI[of _ "12 / 10"]) simp
  qed
next
  case PInf
  have "clamp_sigma sg ns = fl_mul sg (Fin (8 / 10))"
    using assms(2) by (auto simp: clamp_sigma_def PInf inf_times_def)
  then show ?thesis by (intro exI[of _ "8 / 10"]) simp
next
  case NInf
  have "clamp_sigma sg ns = fl_mul sg (Fin (12 / 10))"
    using assms(2) by (auto simp: clamp_sigma_def NInf inf_times_def)
  then show ?thesis by (intro exI[of _ "12 / 10"]) simp
next
  case NaN
  then show ?thesis using assms(1) by simp
qed

text \<open>
  C4. With \<open>hi = 1.2 * sigma_prev\<close> and \<open>lo = 0.8 * sigma_prev\<close>, the controller sets
  sigma to \<open>hi\<close> when \<open>sqrt(0.5 * exp(beta))\<close> is above \<open>hi\<close>, to \<open>lo\<close> when it is
  below \<open>lo\<close>, and to \<open>sqrt(0.5 * exp(beta))\<close> itself when it lies in \<open>[lo, hi]\<close>. The
  new sigma is the previous one times a factor of \<open>[0.8, 1.2]\<close>, and for a non-negative
  previous sigma it lies in \<open>[lo, hi]\<close>. For a finite previous sigma \<open>s\<close> and a finite
  beta \<open>r\<close> the three cases are stated over the reals, with the candidate
  \<open>sqrt (1/2 * exp r)\<close>. This holds for every previous sigma and every beta that is
  not NaN, the infinities included.
\<close>

theorem sigma_step_clamped:
  assumes "beta a = Some b" "\<not> isnan (sigma a)" "\<not> isnan b"
  shows "(let ns = fl_sqrt (fl_mul (Fin (1 / 2)) (fl_exp b));
              hi = fl_mul (sigma a) (Fin (12 / 10));
              lo = fl_mul (sigma a) (Fin (8 / 10));
              s' = sigma (adapt_sigma a)
          in (fl_lt hi ns \<longrightarrow> s' = hi)
           \<and> (fl_lt ns lo \<longrightarrow> s' = lo)
           \<and> (fl_le lo ns \<and> fl_le ns hi \<longrightarrow> s' = ns)
           \<and> (\<exists>f. 8 / 10 \<le> f \<and> f \<le> 12 / 10 \<and> s' = fl_mul (sigma a) (Fin f))
           \<and> (fl_le (Fin 0) (sigma a) \<longrightarrow> fl_le lo s' \<and> fl_le s' hi))
       \<and> (\<forall>s r. sigma a = Fin s \<and> b = Fin r \<longrightarrow>
              (s * (12 / 10) < sqrt (1 / 2 * exp r)
                 \<longrightarrow> sigma (adapt_sigma a) = Fin (s * (12 / 10)))
            \<and> (sqrt (1 / 2 * exp r) < s * (8 / 10)
                 \<longrightarrow> sigma (adapt_sigma a) = Fin (s * (8 / 10)))
            \<and> (s * (8 / 10) \<le> sqrt (1 / 2 * exp r) \<and> sqrt (1 / 2 * exp r) \<le> s * (12 / 10)
                 \<longrightarrow> sigma (adapt_sigma a) = Fin (sqrt (1 / 2 * exp r))))"
proof -
  have s: "sigma (adapt_sigma a) = clamp_sigma (sigma a) (new_sigma b)"
    using assms(1) by (rule adapt_sigma_sigma)
  have nd: "fl_sqrt (fl_mul (Fin (1 / 2)) (fl_exp b)) = new_sigma b"
    by (simp add: new_sigma_def)
  note rng = new_sigma_range[OF assms(3)]
  have fac: "\<exists>f. 8 / 10 \<le> f \<and> f \<le> 12 / 10
               \<and> clamp_sigma (sigma a) (new_sigma b) = fl_mul (sigma a) (Fin f)"
    using clamp_factor[OF assms(2) rng] .
  have cases3: "(fl_lt (fl_mul (sigma a) (Fin (12 / 10))) (new_sigma b)
                  \<longrightarrow> clamp_sigma (sigma a) (new_sigma b) = fl_mul (sigma a) (Fin (12 / 10)))
           \<and> (fl_lt (new_sigma b) (fl_mul (sigma a) (Fin (8 / 10)))
                  \<longrightarrow> clamp_sigma (sigma a) (new_sigma b) = fl_mul (sigma a) (Fin (8 / 10)))
           \<and> (fl_le (fl_mul (sigma a) (Fin (8 / 10))) (new_sigma b)
                \<and> fl_le (new_sigma b) (fl_mul (sigma a) (Fin (12 / 10)))
                  \<longrightarrow> clamp_sigma (sigma a) (new_sigma b) = new_sigma b)
           \<and> (fl_le (Fin 0) (sigma a)
                  \<longrightarrow> fl_le (fl_mul (sigma a) (Fin (8 / 10))) (clamp_sigma (sigma a) (new_sigma b))
                    \<and> fl_le (clamp_sigma (sigma a) (new_sigma b)) (fl_mul (sigma a) (Fin (12 / 10))))"
    using rng
  proof
    assume "\<exists>q\<ge>0. new_sigma b = Fin q"
    then obtain q where q: "0 \<le> q" "new_sigma b = Fin q" by blast
    show ?thesis
      using assms(2) q(1) unfolding q(2)
      by (cases "sigma a") (auto simp: clamp_sigma_def fl_le_def inf_times_def)
  next
    assume q: "new_sigma b = PInf"
    show ?thesis
      using assms(2) unfolding q
      by (cases "sigma a") (auto simp: clamp_sigma_def fl_le_def inf_times_def)
  qed
  have fin: "\<forall>s r. sigma a = Fin s \<and> b = Fin r \<longrightarrow>
              (s * (12 / 10) < sqrt (1 / 2 * exp r)
                 \<longrightarrow> sigma (adapt_sigma a) = Fin (s * (12 / 10)))
            \<and> (sqrt (1 / 2 * exp r) < s * (8 / 10)
                 \<longrightarrow> sigma (adapt_sigma a) = Fin (s * (8 / 10)))
            \<and> (s * (8 / 10) \<le> sqrt (1 / 2 * exp r) \<and> sqrt (1 / 2 * exp r) \<le> s * (12 / 10)
                 \<longrightarrow> sigma (adapt_sigma a) = Fin (sqrt (1 / 2 * exp r)))"
  proof (intro allI impI)
    fix s r assume h: "sigma a = Fin s \<and> b = Fin r"
    have ns: "new_sigma b = Fin (sqrt (1 / 2 * exp r))"
      using h by (simp add: new_sigma_def)
    have nn: "0 \<le> sqrt (1 / 2 * exp r)" by simp
    show "(s * (12 / 10) < sqrt (1 / 2 * exp r)
                 \<longrightarrow> sigma (adapt_sigma a) = Fin (s * (12 / 10)))
            \<and> (sqrt (1 / 2 * exp r) < s * (8 / 10)
                 \<longrightarrow> sigma (adapt_sigma a) = Fin (s * (8 / 10)))
            \<and> (s * (8 / 10) \<le> sqrt (1 / 2 * exp r) \<and> sqrt (1 / 2 * exp r) \<le> s * (12 / 10)
                 \<longrightarrow> sigma (adapt_sigma a) = Fin (sqrt (1 / 2 * exp r)))"
      unfolding s ns using h nn
      by (auto simp: clamp_sigma_def simp del: real_sqrt_ge_0_iff)
  qed
  show ?thesis
    unfolding Let_def nd s using cases3 fac fin[unfolded s] by blast
qed

theorem sigma_step_clamped_witness:
  "sigma (adapt_sigma \<lparr>agents = 4, sigma = Fin 1, beta = Some (Fin (ln (242 / 100))),
          optimize_sigma = True, safe_mutation = False, max_generations = 10\<rparr>)
       = Fin (11 / 10)
   \<and> sigma (adapt_sigma \<lparr>agents = 4, sigma = Fin 1, beta = Some (Fin (ln 8)),
          optimize_sigma = True, safe_mutation = False, max_generations = 10\<rparr>)
       = Fin (12 / 10)
   \<and> sigma (adapt_sigma \<lparr>agents = 4, sigma = Fin 1, beta = Some (Fin 0),
          optimize_sigma = True, safe_mutation = False, max_generations = 10\<rparr>)
       = Fin (8 / 10)"
proof -
  let ?a = "\<lambda>b. \<lparr>agents = 4, sigma = Fin 1, beta = Some (Fin b), optimize_sigma = True,
          safe_mutation = False, max_generations = 10\<rparr>"
  have mid: "sqrt (1 / 2 * exp (ln (242 / 100))) = 11 / 10"
    by (rule real_sqrt_unique) (simp_all add: power2_eq_square)
  have up: "sqrt (1 / 2 * exp (ln 8)) = 2"
    by (rule real_sqrt_unique) (simp_all add: power2_eq_square)
  have lt: "sqrt (1 / 2 * exp 0) < 8 / 10"
    by (rule real_less_lsqrt) (simp_all add: power2_eq_square)
  have h: "beta (?a r) = Some (Fin r)" "\<not> isnan (sigma (?a r))" "\<not> isnan (Fin r)" for r
    by simp_all
  note c = sigma_step_clamped[OF h, THEN conjunct2, THEN spec[of _ "1::real"]]
  have "sigma (adapt_sigma (?a (ln (242 / 100)))) = Fin (11 / 10)"
    using c[of "ln (242 / 100)", THEN spec[of _ "ln (242 / 100)"], unfolded mid] by simp
  moreover have "sigma (adapt_sigma (?a (ln 8))) = Fin (12 / 10)"
    using c[of "ln 8", THEN spec[of _ "ln 8"], unfolded up] by simp
  moreover have "sigma (adapt_sigma (?a 0)) = Fin (8 / 10)"
    using c[of 0, THEN spec[of _ "0::real"]] lt by simp
  ultimately show ?thesis by simp
qed

text \<open>
  The clamp does not cover a NaN beta: \<open>sqrt(0.5 * exp(NaN))\<close> is NaN, both comparisons
  of the source are false, and the \<^verbatim>\<open>else\<close> branch assigns NaN to \<^verbatim>\<open>args.sigma\<close>. The new
  sigma is then neither in \<open>[0.8 * sigma_prev, 1.2 * sigma_prev]\<close> nor the previous sigma
  times any factor.
\<close>

theorem nan_beta_sets_nan_sigma:
  "sigma (adapt_sigma \<lparr>agents = 4, sigma = Fin 1, beta = Some NaN,
          optimize_sigma = True, safe_mutation = False, max_generations = 10\<rparr>) = NaN
   \<and> fl_sqrt (fl_mul (Fin (1 / 2)) (fl_exp NaN)) = NaN
   \<and> \<not> fl_lt (fl_mul (Fin 1) (Fin (12 / 10))) NaN
   \<and> \<not> fl_lt NaN (fl_mul (Fin 1) (Fin (8 / 10)))
   \<and> \<not> fl_le (fl_mul (Fin 1) (Fin (8 / 10))) NaN
   \<and> \<not> fl_le NaN (fl_mul (Fin 1) (Fin (12 / 10)))
   \<and> (\<forall>f. sigma (adapt_sigma \<lparr>agents = 4, sigma = Fin 1, beta = Some NaN,
          optimize_sigma = True, safe_mutation = False, max_generations = 10\<rparr>)
            \<noteq> fl_mul (Fin 1) (Fin f))"
  by (simp add: adapt_sigma_def Let_def clamp_sigma_def new_sigma_def fl_le_def)

text \<open>
  C10. Whenever \<^verbatim>\<open>args.beta\<close> is present, the sigma block leaves
  \<open>beta = log(2 * sigma^2)\<close> for the sigma it has just set, clamped or not.
\<close>

theorem beta_resynchronized:
  assumes "beta a = Some b"
  shows "beta (adapt_sigma a)
           = Some (fl_log (fl_mul (Fin 2)
                     (fl_mul (sigma (adapt_sigma a)) (sigma (adapt_sigma a)))))
       \<and> (\<forall>s. sigma (adapt_sigma a) = Fin s \<and> s \<noteq> 0
              \<longrightarrow> beta (adapt_sigma a) = Some (Fin (ln (2 * s\<^sup>2))))"
  using assms by (auto simp: adapt_sigma_def Let_def power2_eq_square)

theorem beta_resynchronized_witness:
  "beta (adapt_sigma \<lparr>agents = 4, sigma = Fin 1, beta = Some PInf, optimize_sigma = True,
          safe_mutation = False, max_generations = 10\<rparr>)
     = Some (Fin (ln (2 * (12 / 10)\<^sup>2)))"
proof -
  let ?a = "\<lparr>agents = 4, sigma = Fin 1, beta = Some PInf, optimize_sigma = True,
          safe_mutation = False, max_generations = 10\<rparr>"
  have b: "beta ?a = Some PInf" by simp
  have s: "sigma (adapt_sigma ?a) = Fin (12 / 10)"
    by (simp add: adapt_sigma_def Let_def clamp_sigma_def new_sigma_cases)
  show ?thesis using beta_resynchronized[OF b] s by (simp add: power2_eq_square)
qed

section \<open>Verification: resuming from a checkpoint\<close>





section \<open>Verification: antithetic perturbation\<close>

lemma normal_fill_length: "length (fst (normal_fill R n g)) = n"
proof (induction n arbitrary: g)
  case 0
  then show ?case by simp
next
  case (Suc n)
  obtain x g1 where r: "randn R g = (x, g1)" by fastforce
  obtain xs g2 where f: "normal_fill R n g1 = (xs, g2)" by fastforce
  have "length xs = n" using Suc[of g1] f by simp
  then show ?case by (simp add: r f)
qed

lemma get_pertubation_length:
  assumes "get_pertubation R a p g = Inr (eps, g')" "safe_mutation a \<longrightarrow> param_ok p"
  shows "length eps = length (data p)"
proof -
  obtain e0 g0 where n: "normal_fill R (length (data p)) g = (e0, g0)" by fastforce
  have l: "length e0 = length (data p)" using normal_fill_length[of R "length (data p)" g] n by simp
  show ?thesis
    using assms l
    by (auto simp: get_pertubation_def n param_ok_def Let_def split: if_splits option.splits)
qed

lemma mirror_element:
  assumes "\<not> isnan (fl_add p x)" "\<not> isinf (fl_add p x)"
  shows "fl_add (fl_add p x) (fl_sub p x) = fl_mul (Fin 2) p"
  using assms by (cases p; cases x) (simp_all add: fl_sub_def)

lemma perturb_loop_result:
  assumes "perturb_loop R a m1 m2 ps g = Inr (r1, r2)"
    "length m1 = length ps" "length m2 = length ps"
  shows "\<exists>E. draw_layers R a ps g = Inr E \<and> length E = length ps
           \<and> length r1 = length ps \<and> length r2 = length ps
           \<and> (\<forall>l<length ps.
                 r1 ! l = (m1 ! l)\<lparr>data := add_scaled (data (m1 ! l)) (sigma a) (E ! l)\<rparr>
               \<and> r2 ! l = (m2 ! l)\<lparr>data := sub_scaled (data (m2 ! l)) (sigma a) (E ! l)\<rparr>
               \<and> \<not> any_nan (add_scaled (data (m1 ! l)) (sigma a) (E ! l))
               \<and> \<not> any_inf (add_scaled (data (m1 ! l)) (sigma a) (E ! l)))"
  using assms
proof (induction ps arbitrary: m1 m2 g r1 r2)
  case Nil
  then show ?case by simp
next
  case (Cons pp ps)
  obtain p1 t1 where m1: "m1 = p1 # t1" using Cons.prems(2) by (cases m1) auto
  obtain p2 t2 where m2: "m2 = p2 # t2" using Cons.prems(3) by (cases m2) auto
  from Cons.prems(1) obtain eps g' where gp: "get_pertubation R a pp g = Inr (eps, g')"
    unfolding m1 m2 by (auto split: sum.splits)
  let ?d1 = "add_scaled (data p1) (sigma a) eps"
  let ?d2 = "sub_scaled (data p2) (sigma a) eps"
  from Cons.prems(1) have ok: "\<not> any_nan ?d1" "\<not> any_inf ?d1"
    unfolding m1 m2 by (auto simp: gp Let_def split: if_splits)
  from Cons.prems(1) obtain q1 q2 where rec: "perturb_loop R a t1 t2 ps g' = Inr (q1, q2)"
    and r: "r1 = p1\<lparr>data := ?d1\<rparr> # q1" "r2 = p2\<lparr>data := ?d2\<rparr> # q2"
    unfolding m1 m2 by (auto simp: gp Let_def split: if_splits sum.splits)
  have len: "length t1 = length ps" "length t2 = length ps"
    using Cons.prems(2,3) m1 m2 by simp_all
  from Cons.IH[OF rec len] obtain E where E: "draw_layers R a ps g' = Inr E"
    "length E = length ps" "length q1 = length ps" "length q2 = length ps"
    "\<forall>l<length ps.
        q1 ! l = (t1 ! l)\<lparr>data := add_scaled (data (t1 ! l)) (sigma a) (E ! l)\<rparr>
      \<and> q2 ! l = (t2 ! l)\<lparr>data := sub_scaled (data (t2 ! l)) (sigma a) (E ! l)\<rparr>
      \<and> \<not> any_nan (add_scaled (data (t1 ! l)) (sigma a) (E ! l))
      \<and> \<not> any_inf (add_scaled (data (t1 ! l)) (sigma a) (E ! l))"
    by blast
  have "draw_layers R a (pp # ps) g = Inr (eps # E)" by (simp add: gp E(1))
  moreover have "\<forall>l<length (pp # ps).
        r1 ! l = (m1 ! l)\<lparr>data := add_scaled (data (m1 ! l)) (sigma a) ((eps # E) ! l)\<rparr>
      \<and> r2 ! l = (m2 ! l)\<lparr>data := sub_scaled (data (m2 ! l)) (sigma a) ((eps # E) ! l)\<rparr>
      \<and> \<not> any_nan (add_scaled (data (m1 ! l)) (sigma a) ((eps # E) ! l))
      \<and> \<not> any_inf (add_scaled (data (m1 ! l)) (sigma a) ((eps # E) ! l))"
  proof (intro allI impI)
    fix l assume "l < length (pp # ps)"
    then show "r1 ! l = (m1 ! l)\<lparr>data := add_scaled (data (m1 ! l)) (sigma a) ((eps # E) ! l)\<rparr>
      \<and> r2 ! l = (m2 ! l)\<lparr>data := sub_scaled (data (m2 ! l)) (sigma a) ((eps # E) ! l)\<rparr>
      \<and> \<not> any_nan (add_scaled (data (m1 ! l)) (sigma a) ((eps # E) ! l))
      \<and> \<not> any_inf (add_scaled (data (m1 ! l)) (sigma a) ((eps # E) ! l))"
      using E(5) ok by (cases l) (simp_all add: r m1 m2)
  qed
  ultimately show ?case using E(2,3,4) r by auto
qed

lemma draw_layers_lengths:
  assumes "draw_layers R a ps g = Inr E" "\<forall>p\<in>set ps. safe_mutation a \<longrightarrow> param_ok p"
  shows "length E = length ps \<and> (\<forall>l<length ps. length (E ! l) = length (data (ps ! l)))"
  using assms
proof (induction ps arbitrary: g E)
  case Nil
  then show ?case by simp
next
  case (Cons p ps)
  from Cons.prems(1) obtain eps g' E' where gp: "get_pertubation R a p g = Inr (eps, g')"
    and rec: "draw_layers R a ps g' = Inr E'" and E: "E = eps # E'"
    by (auto split: sum.splits)
  have l0: "length eps = length (data p)"
    using get_pertubation_length[OF gp] Cons.prems(2) by simp
  have IH: "length E' = length ps \<and> (\<forall>l<length ps. length (E' ! l) = length (data (ps ! l)))"
    using Cons.IH[OF rec] Cons.prems(2) by simp
  show ?case
  proof (intro conjI allI impI)
    show "length E = length (p # ps)" using IH E by simp
    fix l assume "l < length (p # ps)"
    then show "length (E ! l) = length (data ((p # ps) ! l))"
      using IH l0 E by (cases l) simp_all
  qed
qed


lemma load_state_dict_nth:
  "l < length m \<Longrightarrow> data (load_state_dict m ! l) = data (m ! l)"
  by (simp add: load_state_dict_def)

text \<open>
  C3. The two models that \<^verbatim>\<open>perturb_model\<close> returns are built from one noise
  tensor per parameter, the noise of the one seed: the first is the parent plus
  \<open>sigma * eps\<close>, the second the parent minus \<open>sigma * eps\<close>, and for every element
  their sum is twice the parent's.
\<close>

theorem perturb_model_mirrored:
  assumes "perturb_model R a parent_model random_seed = Inr ms"
    "\<forall>p\<in>set parent_model. safe_mutation a \<longrightarrow> param_ok p"
  shows "\<exists>m1 m2 E. ms = [m1, m2] \<and> noise R a parent_model random_seed = Inr E
           \<and> length m1 = length parent_model \<and> length m2 = length parent_model
           \<and> length E = length parent_model
           \<and> (\<forall>l<length parent_model.
                 length (E ! l) = length (data (parent_model ! l))
               \<and> data (m1 ! l) = add_scaled (data (parent_model ! l)) (sigma a) (E ! l)
               \<and> data (m2 ! l) = sub_scaled (data (parent_model ! l)) (sigma a) (E ! l)
               \<and> length (data (m1 ! l)) = length (data (parent_model ! l))
               \<and> length (data (m2 ! l)) = length (data (parent_model ! l))
               \<and> (\<forall>j<length (data (parent_model ! l)).
                     fl_add (data (m1 ! l) ! j) (data (m2 ! l) ! j)
                       = fl_mul (Fin 2) (data (parent_model ! l) ! j)))"
proof -
  let ?c = "load_state_dict parent_model"
  from assms(1) obtain m1 m2 where
    loop: "perturb_loop R a ?c ?c parent_model (manual_seed R random_seed) = Inr (m1, m2)"
    and ms: "ms = [m1, m2]"
    by (auto simp: perturb_model_def es_parameters_def Let_def split: sum.splits)
  have lc: "length ?c = length parent_model" by (simp add: load_state_dict_def)
  from perturb_loop_result[OF loop lc lc] obtain E where
    E: "draw_layers R a parent_model (manual_seed R random_seed) = Inr E"
      "length E = length parent_model" "length m1 = length parent_model"
      "length m2 = length parent_model"
    and el: "\<forall>l<length parent_model.
                 m1 ! l = (?c ! l)\<lparr>data := add_scaled (data (?c ! l)) (sigma a) (E ! l)\<rparr>
               \<and> m2 ! l = (?c ! l)\<lparr>data := sub_scaled (data (?c ! l)) (sigma a) (E ! l)\<rparr>
               \<and> \<not> any_nan (add_scaled (data (?c ! l)) (sigma a) (E ! l))
               \<and> \<not> any_inf (add_scaled (data (?c ! l)) (sigma a) (E ! l))"
    by blast
  have lens: "\<forall>l<length parent_model. length (E ! l) = length (data (parent_model ! l))"
    using draw_layers_lengths[OF E(1) assms(2)] by simp
  have "\<forall>l<length parent_model.
                 length (E ! l) = length (data (parent_model ! l))
               \<and> data (m1 ! l) = add_scaled (data (parent_model ! l)) (sigma a) (E ! l)
               \<and> data (m2 ! l) = sub_scaled (data (parent_model ! l)) (sigma a) (E ! l)
               \<and> length (data (m1 ! l)) = length (data (parent_model ! l))
               \<and> length (data (m2 ! l)) = length (data (parent_model ! l))
               \<and> (\<forall>j<length (data (parent_model ! l)).
                     fl_add (data (m1 ! l) ! j) (data (m2 ! l) ! j)
                       = fl_mul (Fin 2) (data (parent_model ! l) ! j))"
  proof (intro allI impI)
    fix l assume l: "l < length parent_model"
    let ?d = "data (parent_model ! l)"
    let ?e = "E ! l"
    have le: "length ?e = length ?d" using lens l by simp
    have d1: "data (m1 ! l) = add_scaled ?d (sigma a) ?e"
      and d2: "data (m2 ! l) = sub_scaled ?d (sigma a) ?e"
      and ok: "\<not> any_nan (add_scaled ?d (sigma a) ?e)" "\<not> any_inf (add_scaled ?d (sigma a) ?e)"
      using el l by (simp_all add: load_state_dict_nth)
    have l1: "length (add_scaled ?d (sigma a) ?e) = length ?d"
      and l2: "length (sub_scaled ?d (sigma a) ?e) = length ?d"
      using le by (simp_all add: add_scaled_def sub_scaled_def)
    have el_sum: "fl_add (add_scaled ?d (sigma a) ?e ! j) (sub_scaled ?d (sigma a) ?e ! j)
                    = fl_mul (Fin 2) (?d ! j)" if j: "j < length ?d" for j
    proof -
      let ?x = "fl_mul (sigma a) (?e ! j)"
      have a: "add_scaled ?d (sigma a) ?e ! j = fl_add (?d ! j) ?x"
        and s: "sub_scaled ?d (sigma a) ?e ! j = fl_sub (?d ! j) ?x"
        using j le by (simp_all add: add_scaled_def sub_scaled_def)
      have "add_scaled ?d (sigma a) ?e ! j \<in> set (add_scaled ?d (sigma a) ?e)"
        using j l1 by simp
      then have "\<not> isnan (fl_add (?d ! j) ?x)" "\<not> isinf (fl_add (?d ! j) ?x)"
        using ok a by (auto simp: any_nan_def any_inf_def list_ex_iff)
      then show ?thesis unfolding a s by (rule mirror_element)
    qed
    show "length (E ! l) = length (data (parent_model ! l))
               \<and> data (m1 ! l) = add_scaled (data (parent_model ! l)) (sigma a) (E ! l)
               \<and> data (m2 ! l) = sub_scaled (data (parent_model ! l)) (sigma a) (E ! l)
               \<and> length (data (m1 ! l)) = length (data (parent_model ! l))
               \<and> length (data (m2 ! l)) = length (data (parent_model ! l))
               \<and> (\<forall>j<length (data (parent_model ! l)).
                     fl_add (data (m1 ! l) ! j) (data (m2 ! l) ! j)
                       = fl_mul (Fin 2) (data (parent_model ! l) ! j))"
      using le d1 d2 l1 l2 el_sum by simp
  qed
  then show ?thesis using ms E by (auto simp: noise_def)
qed

theorem perturb_model_mirrored_witness:
  "perturb_model counter_generator
      \<lparr>agents = 2, sigma = Fin (1 / 2), beta = None, optimize_sigma = False,
       safe_mutation = False, max_generations = 10\<rparr>
      [\<lparr>data = [Fin 1, Fin 2], grad = None\<rparr>] 3
     = Inr [[\<lparr>data = [Fin (5 / 2), Fin 4], grad = None\<rparr>],
            [\<lparr>data = [Fin (- 1 / 2), Fin 0], grad = None\<rparr>]]
   \<and> fl_add (Fin (5 / 2)) (Fin (- 1 / 2)) = fl_mul (Fin 2) (Fin 1)
   \<and> fl_add (Fin 4) (Fin 0) = fl_mul (Fin 2) (Fin 2)"
proof -
  let ?a = "\<lparr>agents = 2, sigma = Fin (1 / 2), beta = None, optimize_sigma = False,
       safe_mutation = False, max_generations = 10\<rparr>"
  let ?m = "[\<lparr>data = [Fin 1, Fin 2], grad = None\<rparr>]"
  have run: "perturb_model counter_generator ?a ?m 3
     = Inr [[\<lparr>data = [Fin (5 / 2), Fin 4], grad = None\<rparr>],
            [\<lparr>data = [Fin (- 1 / 2), Fin 0], grad = None\<rparr>]]"
    by (simp add: perturb_model_def load_state_dict_def es_parameters_def
        get_pertubation_def counter_generator_def add_scaled_def sub_scaled_def
        any_nan_def any_inf_def fl_sub_def)
  have ok: "\<forall>p\<in>set ?m. safe_mutation ?a \<longrightarrow> param_ok p" by simp
  from perturb_model_mirrored[OF run ok] obtain m1 m2 where
    ms: "[[\<lparr>data = [Fin (5 / 2), Fin 4], grad = None\<rparr>],
            [\<lparr>data = [Fin (- 1 / 2), Fin 0], grad = None\<rparr>]] = [m1, m2]"
    and el: "\<forall>l<length ?m. \<forall>j<length (data (?m ! l)).
               fl_add (data (m1 ! l) ! j) (data (m2 ! l) ! j) = fl_mul (Fin 2) (data (?m ! l) ! j)"
    by blast
  have m: "m1 = [\<lparr>data = [Fin (5 / 2), Fin 4], grad = None\<rparr>]"
    "m2 = [\<lparr>data = [Fin (- 1 / 2), Fin 0], grad = None\<rparr>]"
    using ms by simp_all
  have "fl_add (data (m1 ! 0) ! 0) (data (m2 ! 0) ! 0) = fl_mul (Fin 2) (data (?m ! 0) ! 0)"
    using el by simp
  moreover have "fl_add (data (m1 ! 0) ! 1) (data (m2 ! 0) ! 1) = fl_mul (Fin 2) (data (?m ! 0) ! 1)"
    using el by simp
  ultimately show ?thesis using run unfolding m by simp
qed

section \<open>Verification: seeds and dispatch\<close>

lemma dispatch_loop_empty: "dispatch_loop [] [] neg = Inr []"
  by (subst dispatch_loop.simps) simp

lemma dispatch_loop_snoc:
  "dispatch_loop (ms @ [m]) (ss @ [s]) neg =
     (case dispatch_loop ms ss (\<not> neg) of
        Inl e \<Rightarrow> Inl e | Inr rest \<Rightarrow> Inr ((m, s, neg) # rest))"
  by (subst dispatch_loop.simps) (simp split: sum.splits)

lemma dispatch_loop_pairs:
  "dispatch_loop (concat (map (\<lambda>s. [pl s, mi s]) xs)) (concat (map (\<lambda>s. [s, s]) xs)) True
     = Inr (concat (map (\<lambda>s. [(mi s, s, True), (pl s, s, False)]) (rev xs)))"
proof (induction xs rule: rev_induct)
  case Nil
  then show ?case by (simp add: dispatch_loop_empty)
next
  case (snoc x xs)
  have "dispatch_loop ((concat (map (\<lambda>s. [pl s, mi s]) xs) @ [pl x]) @ [mi x])
           ((concat (map (\<lambda>s. [s, s]) xs) @ [x]) @ [x]) True
        = Inr ((mi x, x, True) # (pl x, x, False)
               # concat (map (\<lambda>s. [(mi s, s, True), (pl s, s, False)]) (rev xs)))"
    by (simp only: dispatch_loop_snoc snoc.IH not_True_eq_False not_False_eq_True sum.case)
  then show ?case by simp
qed

lemma perturb_model_two:
  "perturb_model R a parent s = Inr ms \<Longrightarrow> \<exists>m1 m2. ms = [m1, m2]"
  by (auto simp: perturb_model_def Let_def split: sum.splits)

lemma two_models_pair:
  assumes "perturb_model R a parent s = Inr ms"
  shows "two_models R a parent s = [hd ms, ms ! 1] \<and> ms = [hd ms, ms ! 1]"
  using perturb_model_two[OF assms] assms by (auto simp: two_models_def)

lemma generate_loop_result:
  assumes "generate_loop R NP a parent n h seeds models = Inr (S, M, h')"
  shows "(\<forall>s\<in>set (drawn_seeds NP n h). \<exists>ms. perturb_model R a parent s = Inr ms)
       \<and> S = seeds @ concat (map (\<lambda>s. [s, s]) (drawn_seeds NP n h))
       \<and> M = models @ concat (map (two_models R a parent) (drawn_seeds NP n h))"
  using assms
proof (induction n arbitrary: h seeds models)
  case 0
  then show ?case by simp
next
  case (Suc n)
  obtain s h1 where r: "randint NP seed_space h = (s, h1)" by fastforce
  from Suc.prems obtain two where pm: "perturb_model R a parent s = Inr two"
    and rec: "generate_loop R NP a parent n h1 (seeds @ [s, s]) (models @ two) = Inr (S, M, h')"
    by (auto simp: r split: sum.splits)
  have tm: "two_models R a parent s = two" by (simp add: two_models_def pm)
  from Suc.IH[OF rec] show ?case using pm by (simp add: r tm)
qed

lemma randint_range: "randint NP seed_space h = (s, h') \<Longrightarrow> 0 \<le> s \<and> s < 2 ^ 30"
proof -
  assume "randint NP seed_space h = (s, h')"
  then obtain x where s: "s = int (x mod seed_space)"
    by (auto simp: randint_def split: prod.splits)
  have "x mod seed_space < seed_space" by (simp add: seed_space_def)
  then have "int (x mod seed_space) < int seed_space" by (simp only: of_nat_less_iff)
  then show ?thesis using s by (simp add: seed_space_def)
qed

lemma drawn_seeds_props:
  "length (drawn_seeds NP n h) = n \<and> (\<forall>s\<in>set (drawn_seeds NP n h). 0 \<le> s \<and> s < 2 ^ 30)"
proof (induction n arbitrary: h)
  case 0
  then show ?case by simp
next
  case (Suc n)
  obtain s h1 where r: "randint NP seed_space h = (s, h1)" by fastforce
  show ?case using Suc[of h1] randint_range[OF r] by (simp add: r)
qed

lemma count_dispatched:
  "length (filter (\<lambda>d. fst (snd d) = s \<and> snd (snd d) = b)
             (concat (map (\<lambda>s. [(mi s, s, True), (pl s, s, False)]) xs)))
     = count_list xs s"
  by (induction xs) auto

lemma dispatch_generation_shape:
  assumes "dispatch_generation R NP a parent h = Inr (D, h')"
  shows "(\<forall>s\<in>set (drawn_seeds NP (agents a div 2) h).
             perturb_model R a parent s
               = Inr [hd (two_models R a parent s), two_models R a parent s ! 1])
       \<and> D = concat (map (\<lambda>s. [(two_models R a parent s ! 1, s, True),
                                (hd (two_models R a parent s), s, False)])
                      (rev (drawn_seeds NP (agents a div 2) h)))"
proof -
  let ?n = "agents a div 2"
  let ?ds = "drawn_seeds NP ?n h"
  let ?pl = "\<lambda>s. hd (two_models R a parent s)"
  let ?mi = "\<lambda>s. two_models R a parent s ! 1"
  from assms obtain S M where gen: "generate_loop R NP a parent ?n h [] [] = Inr (S, M, h')"
    and dl: "dispatch_loop M S True = Inr D"
    by (auto simp: dispatch_generation_def split: sum.splits if_splits)
  from generate_loop_result[OF gen] have
    ok: "\<forall>s\<in>set ?ds. \<exists>ms. perturb_model R a parent s = Inr ms"
    and S: "S = concat (map (\<lambda>s. [s, s]) ?ds)"
    and M: "M = concat (map (two_models R a parent) ?ds)"
    by simp_all
  have pair: "\<forall>s\<in>set ?ds. perturb_model R a parent s = Inr [?pl s, ?mi s]
                \<and> two_models R a parent s = [?pl s, ?mi s]"
  proof
    fix s assume "s \<in> set ?ds"
    then obtain ms where pm: "perturb_model R a parent s = Inr ms" using ok by blast
    from two_models_pair[OF pm] have "two_models R a parent s = ms" "ms = [hd ms, ms ! 1]"
      by (simp_all add: two_models_def pm)
    then show "perturb_model R a parent s = Inr [?pl s, ?mi s]
                \<and> two_models R a parent s = [?pl s, ?mi s]"
      using pm by simp
  qed
  have meq: "map (two_models R a parent) ?ds = map (\<lambda>s. [?pl s, ?mi s]) ?ds"
    by (intro map_cong refl) (use pair in blast)
  have M': "M = concat (map (\<lambda>s. [?pl s, ?mi s]) ?ds)"
    unfolding M meq by (rule refl)
  have "D = concat (map (\<lambda>s. [(?mi s, s, True), (?pl s, s, False)]) (rev ?ds))"
    using dl unfolding M' S dispatch_loop_pairs by simp
  then show ?thesis using pair by simp
qed


lemma length_dispatched:
  "length (concat (map (\<lambda>s. [(mi s, s, True), (pl s, s, False)]) xs)) = 2 * length xs"
  by (induction xs) simp_all

lemma distinct_count_list_one: "distinct xs \<Longrightarrow> x \<in> set xs \<Longrightarrow> count_list xs x = 1"
  by (induction xs) (auto simp: count_list_0_iff)

text \<open>
  C8, as the code has it. A generation draws \<open>N div 2\<close> seeds, each an integer of
  \<open>[0, 2^30)\<close>. The dispatched batch lists, for the drawn seeds in reverse order of
  drawing, the negatively perturbed model of the seed with \<^verbatim>\<open>is_negative\<close> true and then
  the positively perturbed model with \<^verbatim>\<open>is_negative\<close> false; it has \<open>N\<close> entries for
  even \<open>N\<close>. A seed value appears with each sign as often as it was drawn: once with
  each sign, so exactly twice, when the drawn seeds are pairwise distinct.
\<close>

theorem dispatch_antithetic_pairs:
  assumes "dispatch_generation R NP a parent h = Inr (D, h')"
  shows "let draws = drawn_seeds NP (agents a div 2) h;
             plus = (\<lambda>s. hd (two_models R a parent s));
             minus = (\<lambda>s. two_models R a parent s ! 1)
         in length draws = agents a div 2
          \<and> (\<forall>s\<in>set draws. 0 \<le> s \<and> s < 2 ^ 30
                \<and> perturb_model R a parent s = Inr [plus s, minus s])
          \<and> D = concat (map (\<lambda>s. [(minus s, s, True), (plus s, s, False)]) (rev draws))
          \<and> (even (agents a) \<longrightarrow> length D = agents a)
          \<and> (\<forall>s b. length (filter (\<lambda>d. fst (snd d) = s \<and> snd (snd d) = b) D)
                      = count_list draws s)
          \<and> (distinct draws \<longrightarrow>
                (\<forall>s\<in>set draws. \<forall>b.
                    length (filter (\<lambda>d. fst (snd d) = s \<and> snd (snd d) = b) D) = 1))"
proof -
  let ?ds = "drawn_seeds NP (agents a div 2) h"
  let ?pl = "\<lambda>s. hd (two_models R a parent s)"
  let ?mi = "\<lambda>s. two_models R a parent s ! 1"
  note sh = dispatch_generation_shape[OF assms]
  note dp = drawn_seeds_props[of NP "agents a div 2" h]
  have D: "D = concat (map (\<lambda>s. [(?mi s, s, True), (?pl s, s, False)]) (rev ?ds))"
    using sh by simp
  have cnt: "length (filter (\<lambda>d. fst (snd d) = s \<and> snd (snd d) = b) D) = count_list ?ds s"
    for s b
    unfolding D count_dispatched by simp
  have len: "length D = 2 * (agents a div 2)"
    unfolding D length_dispatched using dp by simp
  have "even (agents a) \<longrightarrow> length D = agents a" using len by auto
  moreover have "distinct ?ds \<longrightarrow>
                (\<forall>s\<in>set ?ds. \<forall>b.
                    length (filter (\<lambda>d. fst (snd d) = s \<and> snd (snd d) = b) D) = 1)"
    using cnt distinct_count_list_one by metis
  ultimately show ?thesis
    unfolding Let_def using sh dp D cnt by blast
qed

lemma perturb_example:
  "perturb_model counter_generator
      \<lparr>agents = 4, sigma = Fin (1 / 2), beta = None, optimize_sigma = False,
       safe_mutation = False, max_generations = 10\<rparr>
      [\<lparr>data = [Fin 1], grad = None\<rparr>] s
     = Inr [[\<lparr>data = [Fin (1 + real (nat s) / 2)], grad = None\<rparr>],
            [\<lparr>data = [Fin (1 - real (nat s) / 2)], grad = None\<rparr>]]"
  by (simp add: perturb_model_def load_state_dict_def es_parameters_def
        get_pertubation_def counter_generator_def add_scaled_def sub_scaled_def
        any_nan_def any_inf_def fl_sub_def)

text \<open>
  C8 as stated fails when \<^verbatim>\<open>np.random.randint\<close> returns the same seed in two draws:
  with \<open>N = 4\<close> and both draws equal to 5, seed 5 is dispatched four times.
\<close>

theorem repeated_seed_dispatched_four_times:
  "dispatch_generation counter_generator (\<lambda>h. (5, h))
      \<lparr>agents = 4, sigma = Fin (1 / 2), beta = None, optimize_sigma = False,
       safe_mutation = False, max_generations = 10\<rparr>
      [\<lparr>data = [Fin 1], grad = None\<rparr>] (0 :: nat)
     = Inr ([([\<lparr>data = [Fin (- 3 / 2)], grad = None\<rparr>], 5, True),
             ([\<lparr>data = [Fin (7 / 2)], grad = None\<rparr>], 5, False),
             ([\<lparr>data = [Fin (- 3 / 2)], grad = None\<rparr>], 5, True),
             ([\<lparr>data = [Fin (7 / 2)], grad = None\<rparr>], 5, False)], 0)
   \<and> length (filter (\<lambda>d. fst (snd d) = 5)
        [([\<lparr>data = [Fin (- 3 / 2)], grad = None\<rparr>], 5 :: int, True),
         ([\<lparr>data = [Fin (7 / 2)], grad = None\<rparr>], 5, False),
         ([\<lparr>data = [Fin (- 3 / 2)], grad = None\<rparr>], 5, True),
         ([\<lparr>data = [Fin (7 / 2)], grad = None\<rparr>], 5, False)]) = 4"
proof -
  have r: "randint (Pair 5) seed_space (0 :: nat) = (5, 0)"
    by (simp add: randint_def seed_space_def)
  let ?a = "\<lparr>agents = 4, sigma = Fin (1 / 2), beta = None, optimize_sigma = False,
       safe_mutation = False, max_generations = 10\<rparr>"
  have n: "agents ?a div 2 = Suc (Suc 0)" by simp
  have g: "generate_loop counter_generator (Pair 5) ?a [\<lparr>data = [Fin 1], grad = None\<rparr>]
             (Suc (Suc 0)) (0 :: nat) [] []
           = Inr ([5, 5, 5, 5],
                  [[\<lparr>data = [Fin (7 / 2)], grad = None\<rparr>],
                   [\<lparr>data = [Fin (- 3 / 2)], grad = None\<rparr>],
                   [\<lparr>data = [Fin (7 / 2)], grad = None\<rparr>],
                   [\<lparr>data = [Fin (- 3 / 2)], grad = None\<rparr>]], 0)"
    by (simp add: r perturb_example)
  show ?thesis
    unfolding dispatch_generation_def n g by (simp add: dispatch_loop.simps)
qed


theorem dispatch_antithetic_pairs_witness:
  "dispatch_generation counter_generator (\<lambda>h. (h, Suc h))
      \<lparr>agents = 4, sigma = Fin (1 / 2), beta = None, optimize_sigma = False,
       safe_mutation = False, max_generations = 10\<rparr>
      [\<lparr>data = [Fin 1], grad = None\<rparr>] 7
     = Inr ([([\<lparr>data = [Fin (- 3)], grad = None\<rparr>], 8, True),
             ([\<lparr>data = [Fin 5], grad = None\<rparr>], 8, False),
             ([\<lparr>data = [Fin (- 5 / 2)], grad = None\<rparr>], 7, True),
             ([\<lparr>data = [Fin (9 / 2)], grad = None\<rparr>], 7, False)], 9)
   \<and> drawn_seeds (\<lambda>h. (h, Suc h)) 2 7 = [7, 8]
   \<and> (\<forall>b. length (filter (\<lambda>d. fst (snd d) = 7 \<and> snd (snd d) = b)
            [([\<lparr>data = [Fin (- 3)], grad = None\<rparr>], 8 :: int, True),
             ([\<lparr>data = [Fin 5], grad = None\<rparr>], 8, False),
             ([\<lparr>data = [Fin (- 5 / 2)], grad = None\<rparr>], 7, True),
             ([\<lparr>data = [Fin (9 / 2)], grad = None\<rparr>], 7, False)]) = 1)"
proof -
  let ?a = "\<lparr>agents = 4, sigma = Fin (1 / 2), beta = None, optimize_sigma = False,
       safe_mutation = False, max_generations = 10\<rparr>"
  let ?NP = "\<lambda>h. (h, Suc h)"
  let ?D = "[([\<lparr>data = [Fin (- 3)], grad = None\<rparr>], 8 :: int, True),
             ([\<lparr>data = [Fin 5], grad = None\<rparr>], 8, False),
             ([\<lparr>data = [Fin (- 5 / 2)], grad = None\<rparr>], 7, True),
             ([\<lparr>data = [Fin (9 / 2)], grad = None\<rparr>], 7, False)]"
  have r: "randint ?NP seed_space h = (int h, Suc h)" if "h < 10" for h
    using that by (simp add: randint_def seed_space_def)
  have n: "agents ?a div 2 = Suc (Suc 0)" by simp
  have g: "generate_loop counter_generator ?NP ?a [\<lparr>data = [Fin 1], grad = None\<rparr>]
             (Suc (Suc 0)) 7 [] []
           = Inr ([7, 7, 8, 8],
                  [[\<lparr>data = [Fin (9 / 2)], grad = None\<rparr>],
                   [\<lparr>data = [Fin (- 5 / 2)], grad = None\<rparr>],
                   [\<lparr>data = [Fin 5], grad = None\<rparr>],
                   [\<lparr>data = [Fin (- 3)], grad = None\<rparr>]], 9)"
    by (simp add: r perturb_example)
  have run: "dispatch_generation counter_generator ?NP ?a [\<lparr>data = [Fin 1], grad = None\<rparr>] 7
               = Inr (?D, 9)"
    unfolding dispatch_generation_def n g by (simp add: dispatch_loop.simps)
  have ds: "drawn_seeds ?NP (agents ?a div 2) 7 = [7, 8]"
    unfolding n by (simp add: r)
  have ds2: "drawn_seeds ?NP 2 7 = [7, 8]" using ds by simp
  from dispatch_antithetic_pairs[OF run]
  have "\<forall>s b. length (filter (\<lambda>d. fst (snd d) = s \<and> snd (snd d) = b) ?D)
                 = count_list (drawn_seeds ?NP (agents ?a div 2) 7) s"
    unfolding Let_def by blast
  then have "\<forall>b. length (filter (\<lambda>d. fst (snd d) = 7 \<and> snd (snd d) = b) ?D) = 1"
    unfolding ds by simp
  then show ?thesis using run ds2 by blast
qed

section \<open>Verification: sensitivities\<close>

lemma set_sensitivities_result:
  assumes "set_sensitivities ps ss = Inr ps'"
  shows "length ps \<le> length ss \<and> length ps' = length ps
       \<and> (\<forall>i<length ps. ps' ! i = (ps ! i)\<lparr>grad := Some (ss ! i)\<rparr>
              \<and> \<not> any_nan (ss ! i) \<and> \<not> any_inf (ss ! i))"
  using assms
proof (induction ps ss arbitrary: ps' rule: set_sensitivities.induct)
  case (1 ss)
  then show ?case by simp
next
  case (2 p ps)
  then show ?case by simp
next
  case (3 p ps s ss)
  from "3.prems" have ok: "\<not> any_nan s" "\<not> any_inf s"
    by (auto split: if_splits)
  from "3.prems" ok obtain q where rec: "set_sensitivities ps ss = Inr q"
    and r: "ps' = p\<lparr>grad := Some s\<rparr> # q"
    by (auto split: sum.splits)
  note IH = "3.IH"[OF ok rec]
  show ?case
  proof (intro conjI allI impI)
    show "length (p # ps) \<le> length (s # ss)" using IH by simp
    show "length ps' = length (p # ps)" using IH r by simp
    fix i assume "i < length (p # ps)"
    then show "ps' ! i = ((p # ps) ! i)\<lparr>grad := Some ((s # ss) ! i)\<rparr>"
      "\<not> any_nan ((s # ss) ! i)" "\<not> any_inf ((s # ss) ! i)"
      using IH ok r by (cases i; simp)+
  qed
qed

lemma normalize_all_result:
  assumes "normalize_all ts = Inr ns"
  shows "length ns = length ts \<and> (\<forall>i<length ts. normalize_tensor (ts ! i) = Inr (ns ! i))"
  using assms
proof (induction ts arbitrary: ns)
  case Nil
  then show ?case by simp
next
  case (Cons t ts)
  from Cons.prems obtain t' ns' where n: "normalize_tensor t = Inr t'"
    and rec: "normalize_all ts = Inr ns'" and ns: "ns = t' # ns'"
    by (auto split: sum.splits)
  note IH = Cons.IH[OF rec]
  show ?case
  proof (intro conjI allI impI)
    show "length ns = length (t # ts)" using IH ns by simp
    fix i assume "i < length (t # ts)"
    then show "normalize_tensor ((t # ts) ! i) = Inr (ns ! i)"
      using IH n ns by (cases i) simp_all
  qed
qed

lemma numerical_nth:
  assumes "j < length t"
  shows "numerical t ! j =
           (if fl_lt (t ! j) (Fin (1 / 100000)) then Fin 1
            else if fl_lt (Fin 100000) (t ! j) then Fin 100000 else t ! j)"
  using assms by (simp add: numerical_def)

lemma numerical_map:
  "numerical t = map (\<lambda>x. if fl_lt x (Fin (1 / 100000)) then Fin 1
                          else if fl_lt (Fin 100000) x then Fin 100000 else x) t"
  by (simp add: numerical_def)

lemma fold_fl_max_PInf:
  "\<forall>y\<in>set xs. \<not> isnan y \<Longrightarrow> fold fl_max xs PInf = PInf"
proof (induction xs)
  case Nil
  then show ?case by simp
next
  case (Cons y ys)
  have "fl_max y PInf = PInf" using Cons.prems by (cases y) (simp_all add: fl_max_def)
  then show ?case using Cons by simp
qed

lemma fold_fl_max_has_PInf:
  "\<not> isnan x \<Longrightarrow> \<forall>y\<in>set xs. \<not> isnan y \<Longrightarrow> PInf \<in> set xs \<Longrightarrow> fold fl_max xs x = PInf"
proof (induction xs arbitrary: x)
  case Nil
  then show ?case by simp
next
  case (Cons y ys)
  have nn: "\<not> isnan (fl_max y x)" using Cons.prems by (simp add: fl_max_def)
  show ?case
  proof (cases "y = PInf")
    case True
    then have "fl_max y x = PInf" using Cons.prems(1) by (cases x) (simp_all add: fl_max_def)
    then show ?thesis using fold_fl_max_PInf[of ys] Cons.prems(2) by simp
  next
    case False
    then have "PInf \<in> set ys" using Cons.prems(3) by auto
    then show ?thesis using Cons.IH[OF nn] Cons.prems(2) by simp
  qed
qed

lemma fold_fl_max_Fin:
  "fold fl_max (map Fin rs) (Fin r) = Fin (Max (set (r # rs)))"
proof (induction rs arbitrary: r)
  case Nil
  then show ?case by simp
next
  case (Cons a rs)
  have "fl_max (Fin a) (Fin r) = Fin (max a r)" by (simp add: fl_max_def max_def)
  then have "fold fl_max (map Fin (a # rs)) (Fin r) = Fin (Max (set (max a r # rs)))"
    using Cons.IH[of "max a r"] by simp
  moreover have "Max (set (max a r # rs)) = Max (set (r # a # rs))"
    by (cases "rs = []") (simp_all add: max.assoc max.commute max.left_commute)
  ultimately show ?case by simp
qed

lemma normalized_by_maximum:
  assumes nt: "normalize_tensor t = Inr n"
    and nn: "\<not> any_nan (numerical n)"
    and sq: "\<forall>x\<in>set t. \<exists>z. x = fl_sqrt z"
  shows "\<exists>R. t = map Fin R \<and> R \<noteq> [] \<and> (\<forall>r\<in>set R. 0 \<le> r \<and> r \<le> Max (set R))
            \<and> 0 < Max (set R)
            \<and> tensor_max t = Inr (Fin (Max (set R)))
            \<and> n = map (\<lambda>r. Fin (r / Max (set R))) R"
proof -
  from nt obtain m where tm: "tensor_max t = Inr m" and n: "n = map (\<lambda>x. fl_div x m) t"
    by (auto simp: normalize_tensor_def split: sum.splits)
  from tm obtain x xs where t: "t = x # xs" and m: "m = fold fl_max xs x"
    by (auto simp: tensor_max_def split: list.splits)
  have dn: "\<not> isnan (fl_div y m)" if "y \<in> set t" for y
  proof
    assume "isnan (fl_div y m)"
    then have "fl_div y m = NaN" by (cases "fl_div y m") simp_all
    then have "NaN \<in> set (numerical n)"
      using that unfolding numerical_map n by (force simp: image_iff)
    then show False using nn by (auto simp: any_nan_def list_ex_iff)
  qed
  have xn: "\<not> isnan y" if "y \<in> set t" for y
    using dn[OF that] by (cases y) simp_all
  have mn: "\<not> isnan m"
    using dn[of x] t by (cases m; cases x) simp_all
  have shape: "(\<exists>r\<ge>0. y = Fin r) \<or> y = PInf" if "y \<in> set t" for y
  proof -
    from sq that obtain z where "y = fl_sqrt z" by blast
    then show ?thesis using xn[OF that] by (cases z) (auto split: if_splits)
  qed
  have nopinf: "PInf \<notin> set t"
  proof
    assume p: "PInf \<in> set t"
    have "m = PInf"
    proof (cases "x = PInf")
      case True
      then show ?thesis
        using fold_fl_max_PInf[of xs] xn t unfolding m by simp
    next
      case False
      then have "PInf \<in> set xs" using p t by simp
      then show ?thesis
        using fold_fl_max_has_PInf[of x xs] xn t unfolding m by simp
    qed
    then show False using dn[OF p] by simp
  qed
  have fin: "\<exists>r\<ge>0. y = Fin r" if "y \<in> set t" for y
    using shape[OF that] nopinf that by auto
  define R where "R = map val t"
  have fv: "Fin (val y) = y" if "y \<in> set t" for y
    using fin[OF that] by auto
  have "map (Fin \<circ> val) t = t" using fv by (simp add: map_idI)
  then have tR: "t = map Fin R" by (simp add: R_def)
  have Rne: "R \<noteq> []" using t by (simp add: R_def)
  have Rpos: "0 \<le> r" if "r \<in> set R" for r
  proof -
    from that obtain y where y: "y \<in> set t" "r = val y" unfolding R_def by auto
    from fin[OF y(1)] show ?thesis unfolding y(2) by auto
  qed
  have RR: "R = val x # map val xs" by (simp add: R_def t)
  have xF: "x = Fin (val x)" "xs = map Fin (map val xs)"
    using tR unfolding RR t by simp_all
  have "m = fold fl_max (map Fin (map val xs)) (Fin (val x))"
    unfolding m using xF by simp
  then have mM: "m = Fin (Max (set R))"
    unfolding fold_fl_max_Fin RR .
  have Mge: "r \<le> Max (set R)" if "r \<in> set R" for r using that by simp
  have Min: "Max (set R) \<in> set R" using Rne by (intro Max_in) simp_all
  have M0: "Max (set R) \<noteq> 0"
  proof
    assume z: "Max (set R) = 0"
    then have "Fin 0 \<in> set t" using Min unfolding tR by (simp add: image_iff)
    from dn[OF this] show False unfolding mM z by simp
  qed
  have Mpos: "0 < Max (set R)" using Rpos[OF Min] M0 by simp
  have nR: "n = map (\<lambda>r. Fin (r / Max (set R))) R"
    unfolding n mM tR using M0 by simp
  show ?thesis using tR Rne Rpos Mge Mpos tm[unfolded mM] nR by blast
qed

lemma root_sum_squares_sqrt:
  assumes "pid < length (root_sum_squares backward n_outputs)"
  shows "\<forall>x\<in>set (root_sum_squares backward n_outputs ! pid). \<exists>z. x = fl_sqrt z"
  using assms by (auto simp: root_sum_squares_def)

text \<open>
  C7. Whenever \<^verbatim>\<open>compute_sensitivities\<close> returns, so that no assertion on NaN or Inf
  failed, the root-sum-square tensor of each parameter is a non-empty list \<open>R\<close> of
  non-negative reals with a positive maximum, \<^verbatim>\<open>tensor.max()\<close> is that maximum, the
  normalized tensor is \<open>R\<close> divided element-wise by \<open>Max R\<close>, and the stored gradient is the
  normalized tensor after the floor and the ceiling: the element \<open>r / Max R\<close> becomes 1
  when it is below \<open>1e-5\<close>, \<open>1e5\<close> when it is above \<open>1e5\<close>, and is kept otherwise.
  Every stored element is a finite number of \<open>[1e-5, 1e5]\<close>, hence non-negative. The
  floor and ceiling pass itself maps every element of every tensor in this way.
\<close>

theorem sensitivities_floor_ceiling:
  assumes "compute_sensitivities parent_model backward n_outputs = Inr m'"
  shows "(\<exists>normalized.
           normalize_all (root_sum_squares backward n_outputs) = Inr normalized
         \<and> length m' = length parent_model
         \<and> length parent_model \<le> length normalized
         \<and> (\<forall>pid<length parent_model.
               \<exists>R. root_sum_squares backward n_outputs ! pid = map Fin R
                 \<and> R \<noteq> [] \<and> (\<forall>r\<in>set R. 0 \<le> r \<and> r \<le> Max (set R)) \<and> 0 < Max (set R)
                 \<and> tensor_max (map Fin R) = Inr (Fin (Max (set R)))
                 \<and> normalize_tensor (map Fin R) = Inr (normalized ! pid)
                 \<and> normalized ! pid = map (\<lambda>r. Fin (r / Max (set R))) R
                 \<and> data (m' ! pid) = data (parent_model ! pid)
                 \<and> grad (m' ! pid) = Some (numerical (normalized ! pid))
                 \<and> grad (m' ! pid) =
                     Some (map (\<lambda>r. Fin (if r / Max (set R) < 1 / 100000 then 1
                                         else if 100000 < r / Max (set R) then 100000
                                         else r / Max (set R))) R)
                 \<and> (\<forall>x\<in>set (numerical (normalized ! pid)).
                       \<exists>y. x = Fin y \<and> 0 \<le> y \<and> 1 / 100000 \<le> y \<and> y \<le> 100000)))
       \<and> (\<forall>t j. j < length t \<longrightarrow>
             numerical t ! j =
               (if fl_lt (t ! j) (Fin (1 / 100000)) then Fin 1
                else if fl_lt (Fin 100000) (t ! j) then Fin 100000 else t ! j))"
proof -
  let ?per = "\<lambda>normalized pid.
               \<exists>R. root_sum_squares backward n_outputs ! pid = map Fin R
                 \<and> R \<noteq> [] \<and> (\<forall>r\<in>set R. 0 \<le> r \<and> r \<le> Max (set R)) \<and> 0 < Max (set R)
                 \<and> tensor_max (map Fin R) = Inr (Fin (Max (set R)))
                 \<and> normalize_tensor (map Fin R) = Inr (normalized ! pid)
                 \<and> normalized ! pid = map (\<lambda>r. Fin (r / Max (set R))) R
                 \<and> data (m' ! pid) = data (parent_model ! pid)
                 \<and> grad (m' ! pid) = Some (numerical (normalized ! pid))
                 \<and> grad (m' ! pid) =
                     Some (map (\<lambda>r. Fin (if r / Max (set R) < 1 / 100000 then 1
                                         else if 100000 < r / Max (set R) then 100000
                                         else r / Max (set R))) R)
                 \<and> (\<forall>x\<in>set (numerical (normalized ! pid)).
                       \<exists>y. x = Fin y \<and> 0 \<le> y \<and> 1 / 100000 \<le> y \<and> y \<le> 100000)"
  from assms obtain normalized where
    na: "normalize_all (root_sum_squares backward n_outputs) = Inr normalized"
    and ss: "set_sensitivities parent_model (map numerical normalized) = Inr m'"
    by (auto simp: compute_sensitivities_def split: sum.splits)
  note nr = normalize_all_result[OF na]
  note sr = set_sensitivities_result[OF ss]
  have len: "length parent_model \<le> length normalized" using sr by simp
  have lm: "length m' = length parent_model" using sr by simp
  have per: "?per normalized pid" if pid: "pid < length parent_model" for pid
  proof -
    have pn: "pid < length normalized" using pid len by simp
    then have pr: "pid < length (root_sum_squares backward n_outputs)" using nr by simp
    let ?t = "root_sum_squares backward n_outputs ! pid"
    let ?n = "normalized ! pid"
    have nt: "normalize_tensor ?t = Inr ?n" using nr pr by simp
    have nm: "map numerical normalized ! pid = numerical ?n" using pn by simp
    have "m' ! pid = (parent_model ! pid)\<lparr>grad := Some (map numerical normalized ! pid)\<rparr>"
      and "\<not> any_nan (map numerical normalized ! pid)"
      using sr pid by blast+
    then have m: "m' ! pid = (parent_model ! pid)\<lparr>grad := Some (numerical ?n)\<rparr>"
      and nonan: "\<not> any_nan (numerical ?n)"
      unfolding nm by simp_all
    from normalized_by_maximum[OF nt nonan root_sum_squares_sqrt[OF pr]]
    obtain R where tR: "?t = map Fin R" and Rne: "R \<noteq> []"
      and Rb: "\<forall>r\<in>set R. 0 \<le> r \<and> r \<le> Max (set R)" and Mpos: "0 < Max (set R)"
      and tm: "tensor_max ?t = Inr (Fin (Max (set R)))"
      and nR: "?n = map (\<lambda>r. Fin (r / Max (set R))) R"
      by (elim exE conjE)
    have num: "numerical ?n =
                 map (\<lambda>r. Fin (if r / Max (set R) < 1 / 100000 then 1
                                else if 100000 < r / Max (set R) then 100000
                                else r / Max (set R))) R"
      unfolding nR by (simp add: numerical_map)
    have rng: "\<forall>x\<in>set (numerical ?n).
                 \<exists>y. x = Fin y \<and> 0 \<le> y \<and> 1 / 100000 \<le> y \<and> y \<le> 100000"
    proof
      fix x assume x: "x \<in> set (numerical ?n)"
      then obtain r where r: "r \<in> set R"
        and xr: "x = Fin (if r / Max (set R) < 1 / 100000 then 1
                          else if 100000 < r / Max (set R) then 100000
                          else r / Max (set R))"
        unfolding num by auto
      have "r / Max (set R) \<le> 1" "0 \<le> r / Max (set R)" using Rb r Mpos by simp_all
      then show "\<exists>y. x = Fin y \<and> 0 \<le> y \<and> 1 / 100000 \<le> y \<and> y \<le> 100000"
        unfolding xr by (simp del: divide_le_eq_1 zero_le_divide_iff)
    qed
    have g: "grad (m' ! pid) = Some (numerical ?n)" unfolding m by simp
    have d: "data (m' ! pid) = data (parent_model ! pid)" unfolding m by simp
    show ?thesis
    proof (intro exI[of _ R] conjI)
      show "?t = map Fin R" by (fact tR)
      show "R \<noteq> []" by (fact Rne)
      show "\<forall>r\<in>set R. 0 \<le> r \<and> r \<le> Max (set R)" by (fact Rb)
      show "0 < Max (set R)" by (fact Mpos)
      show "tensor_max (map Fin R) = Inr (Fin (Max (set R)))" using tm unfolding tR .
      show "normalize_tensor (map Fin R) = Inr ?n" using nt unfolding tR .
      show "?n = map (\<lambda>r. Fin (r / Max (set R))) R" by (fact nR)
      show "data (m' ! pid) = data (parent_model ! pid)" by (fact d)
      show "grad (m' ! pid) = Some (numerical ?n)" by (fact g)
      show "grad (m' ! pid) =
              Some (map (\<lambda>r. Fin (if r / Max (set R) < 1 / 100000 then 1
                                   else if 100000 < r / Max (set R) then 100000
                                   else r / Max (set R))) R)"
        using g unfolding num .
      show "\<forall>x\<in>set (numerical ?n).
              \<exists>y. x = Fin y \<and> 0 \<le> y \<and> 1 / 100000 \<le> y \<and> y \<le> 100000"
        by (fact rng)
    qed
  qed
  have A: "\<exists>normalized.
           normalize_all (root_sum_squares backward n_outputs) = Inr normalized
         \<and> length m' = length parent_model
         \<and> length parent_model \<le> length normalized
         \<and> (\<forall>pid<length parent_model. ?per normalized pid)"
  proof (intro exI[of _ normalized] conjI allI impI)
    show "normalize_all (root_sum_squares backward n_outputs) = Inr normalized" by (fact na)
    show "length m' = length parent_model" by (fact lm)
    show "length parent_model \<le> length normalized" by (fact len)
    fix pid assume "pid < length parent_model"
    then show "?per normalized pid" by (rule per)
  qed
  have B: "\<forall>t j. j < length t \<longrightarrow>
             numerical t ! j =
               (if fl_lt (t ! j) (Fin (1 / 100000)) then Fin 1
                else if fl_lt (Fin 100000) (t ! j) then Fin 100000 else t ! j)"
    using numerical_nth by blast
  from A B show ?thesis ..
qed

theorem sensitivities_floor_ceiling_witness:
  "compute_sensitivities [\<lparr>data = [Fin 0, Fin 0, Fin 0], grad = None\<rparr>]
      (\<lambda>idx. if idx = 0 then [[Fin 3, Fin 1, Fin 0]] else [[Fin 4, Fin 0, Fin 0]]) 2
     = Inr [\<lparr>data = [Fin 0, Fin 0, Fin 0], grad = Some [Fin 1, Fin (1 / 5), Fin 1]\<rparr>]
   \<and> root_sum_squares
        (\<lambda>idx. if idx = 0 then [[Fin 3, Fin 1, Fin 0]] else [[Fin 4, Fin 0, Fin 0]]) 2
       = [[Fin 5, Fin 1, Fin 0]]
   \<and> (\<exists>R. R = [5, 1, 0] \<and> Max (set R) = 5
         \<and> tensor_max (map Fin R) = Inr (Fin 5)
         \<and> normalize_tensor (map Fin R) = Inr [Fin 1, Fin (1 / 5), Fin 0]
         \<and> Some [Fin 1, Fin (1 / 5), Fin 1] = Some (numerical [Fin 1, Fin (1 / 5), Fin 0]))
   \<and> numerical [Fin 200000, Fin 0, Fin (1 / 2)] ! 0 = Fin 100000"
proof -
  let ?bw = "\<lambda>idx :: nat. if idx = 0 then [[Fin 3, Fin 1, Fin 0]] else [[Fin 4, Fin 0, Fin 0]]"
  let ?m = "[\<lparr>data = [Fin 0, Fin 0, Fin 0], grad = None\<rparr>]"
  let ?m' = "[\<lparr>data = [Fin 0, Fin 0, Fin 0], grad = Some [Fin 1, Fin (1 / 5), Fin 1]\<rparr>]"
  have s25: "sqrt 25 = 5" by (rule real_sqrt_unique) simp_all
  have rss: "root_sum_squares ?bw 2 = [[Fin 5, Fin 1, Fin 0]]"
    by (simp add: root_sum_squares_def accumulate_sensitivities_def squared_def
        numeral_2_eq_2 s25)
  have run: "compute_sensitivities ?m ?bw 2 = Inr ?m'"
    by (simp add: compute_sensitivities_def rss normalize_tensor_def tensor_max_def
        fl_max_def numerical_def any_nan_def any_inf_def)
  note th = sensitivities_floor_ceiling[OF run]
  from th[THEN conjunct1] obtain normalized where
    "\<forall>pid<length ?m.
        \<exists>R. root_sum_squares ?bw 2 ! pid = map Fin R
          \<and> R \<noteq> [] \<and> (\<forall>r\<in>set R. 0 \<le> r \<and> r \<le> Max (set R)) \<and> 0 < Max (set R)
          \<and> tensor_max (map Fin R) = Inr (Fin (Max (set R)))
          \<and> normalize_tensor (map Fin R) = Inr (normalized ! pid)
          \<and> normalized ! pid = map (\<lambda>r. Fin (r / Max (set R))) R
          \<and> data (?m' ! pid) = data (?m ! pid)
          \<and> grad (?m' ! pid) = Some (numerical (normalized ! pid))
          \<and> grad (?m' ! pid) =
              Some (map (\<lambda>r. Fin (if r / Max (set R) < 1 / 100000 then 1
                                  else if 100000 < r / Max (set R) then 100000
                                  else r / Max (set R))) R)
          \<and> (\<forall>x\<in>set (numerical (normalized ! pid)).
                \<exists>y. x = Fin y \<and> 0 \<le> y \<and> 1 / 100000 \<le> y \<and> y \<le> 100000)"
    by (elim exE conjE)
  note at0 = this[THEN spec[of _ 0], THEN mp]
  have "0 < length ?m" by simp
  from at0[OF this]
  obtain R where R: "root_sum_squares ?bw 2 ! 0 = map Fin R"
    and "R \<noteq> []" and "\<forall>r\<in>set R. 0 \<le> r \<and> r \<le> Max (set R)" and "0 < Max (set R)"
    and tm: "tensor_max (map Fin R) = Inr (Fin (Max (set R)))"
    and nt: "normalize_tensor (map Fin R) = Inr (normalized ! 0)"
    and nR: "normalized ! 0 = map (\<lambda>r. Fin (r / Max (set R))) R"
    and "data (?m' ! 0) = data (?m ! 0)"
    and g: "grad (?m' ! 0) = Some (numerical (normalized ! 0))"
    and "grad (?m' ! 0) =
              Some (map (\<lambda>r. Fin (if r / Max (set R) < 1 / 100000 then 1
                                  else if 100000 < r / Max (set R) then 100000
                                  else r / Max (set R))) R)"
    and "\<forall>x\<in>set (numerical (normalized ! 0)).
                \<exists>y. x = Fin y \<and> 0 \<le> y \<and> 1 / 100000 \<le> y \<and> y \<le> 100000"
    by (elim exE conjE)
  have Rv: "R = [5, 1, 0]"
    using R unfolding rss by (auto simp: map_eq_Cons_conv)
  have M: "Max (set R) = 5" unfolding Rv by simp
  have n0: "normalized ! 0 = [Fin 1, Fin (1 / 5), Fin 0]"
    unfolding nR M unfolding Rv by simp
  have 1: "\<exists>R. R = [5, 1, 0] \<and> Max (set R) = 5
         \<and> tensor_max (map Fin R) = Inr (Fin 5)
         \<and> normalize_tensor (map Fin R) = Inr [Fin 1, Fin (1 / 5), Fin 0]
         \<and> Some [Fin 1, Fin (1 / 5), Fin 1] = Some (numerical [Fin 1, Fin (1 / 5), Fin 0])"
  proof (intro exI[of _ R] conjI)
    show "R = [5, 1, 0]" by (fact Rv)
    show "Max (set R) = 5" by (fact M)
    show "tensor_max (map Fin R) = Inr (Fin 5)" using tm unfolding M .
    show "normalize_tensor (map Fin R) = Inr [Fin 1, Fin (1 / 5), Fin 0]"
      using nt unfolding n0 .
    show "Some [Fin 1, Fin (1 / 5), Fin 1] = Some (numerical [Fin 1, Fin (1 / 5), Fin 0])"
      using g unfolding n0 by simp
  qed
  have 2: "numerical [Fin 200000, Fin 0, Fin (1 / 2)] ! 0 = Fin 100000"
    using th[THEN conjunct2, THEN spec[of _ "[Fin 200000, Fin 0, Fin (1 / 2)]"],
             THEN spec[of _ 0]] by simp
  from run rss 1 2 show ?thesis by (intro conjI)
qed

section \<open>Verification: gradient estimation\<close>

lemma draw_layers_length:
  "draw_layers R a ps g = Inr E \<Longrightarrow> length E = length ps"
proof (induction ps arbitrary: g E)
  case Nil
  then show ?case by simp
next
  case (Cons p ps)
  from Cons.prems obtain eps g' E' where "draw_layers R a ps g' = Inr E'" "E = eps # E'"
    by (auto split: sum.splits)
  then show ?case using Cons.IH by simp
qed

lemma map2_Fin_add:
  "map2 fl_add (map Fin w) (map ((\<lambda>e. fl_mul (Fin c) (fl_mul (Fin rm) e)) \<circ> Fin) e)
     = map Fin (map2 (\<lambda>x y. x + c * (rm * y)) w e)"
  by (induction w e rule: list_induct2') simp_all

lemma sample_layers_finite:
  assumes "draw_layers R a ps g = Inr (map (map Fin) E)"
    "length W = length ps" "sigma a = Fin s" "s \<noteq> 0" "agents a \<noteq> 0"
    "optimize_sigma a \<longrightarrow> beta a = Some b"
  shows "sample_layers R a (Fin r) (Fin m) ps (map (map Fin) W) bg g =
     Inr (map (map Fin) (add_sample (1 / (real (agents a) * (s * s))) (r * m) W E),
          if optimize_sigma a then beta_accumulate a b (Fin r) bg E else bg)"
  using assms(1,2)
proof (induction ps arbitrary: W E g bg)
  case Nil
  then show ?case by (simp add: add_sample_def beta_accumulate_def)
next
  case (Cons p ps)
  from Cons.prems(1) obtain eps g' rest where gp: "get_pertubation R a p g = Inr (eps, g')"
    and rec: "draw_layers R a ps g' = Inr rest" and eq: "map (map Fin) E = eps # rest"
    by (auto split: sum.splits)
  from eq obtain e E' where E: "E = e # E'" "eps = map Fin e" "rest = map (map Fin) E'"
    by (cases E) auto
  from Cons.prems(2) obtain w W' where W: "W = w # W'" "length W' = length ps"
    by (cases W) auto
  have c: "py_div (Fin 1) (fl_mul (Fin (real (agents a))) (fl_mul (sigma a) (sigma a)))
             = Inr (Fin (1 / (real (agents a) * (s * s))))"
    using assms(3,4,5) by (simp add: py_div_def)
  note IH = Cons.IH[OF rec[unfolded E(3)] W(2)]
  show ?case
    using assms(6)
    by (simp add: W E gp c IH map2_Fin_add add_sample_def beta_accumulate_def)
qed

lemma add_sample_length: "length E = length W \<Longrightarrow> length (add_sample c rm W E) = length W"
  by (simp add: add_sample_def)

lemma sample_loop_finite:
  assumes "\<forall>i\<in>set is. i < length is_anti_list \<and> i < length w
              \<and> noise R a m (seeds ! i) = Inr (map (map Fin) (E i))"
    "length W = length m" "sigma a = Fin s" "s \<noteq> 0" "agents a \<noteq> 0"
    "optimize_sigma a \<longrightarrow> beta a = Some b"
  shows "sample_loop R a m (map Fin w) seeds is_anti_list is (map (map Fin) W) bg =
     Inr (map (map Fin)
            (foldl (\<lambda>W i. add_sample (1 / (real (agents a) * (s * s)))
                             (w ! i * sign_of is_anti_list i) W (E i)) W is),
          foldl (\<lambda>acc i. if optimize_sigma a
                          then beta_accumulate a b (Fin (w ! i)) acc (E i) else acc) bg is)"
  using assms(1,2)
proof (induction "is" arbitrary: W bg)
  case Nil
  then show ?case by simp
next
  case (Cons i "is")
  have i: "i < length is_anti_list" "i < length w"
    and dl: "draw_layers R a m (manual_seed R (seeds ! i)) = Inr (map (map Fin) (E i))"
    using Cons.prems(1) by (simp_all add: noise_def)
  have lE: "length (E i) = length W"
    using draw_layers_length[OF dl] Cons.prems(2) by simp
  have mult: "(if is_anti_list ! i then Fin (- 1) else Fin 1) = Fin (sign_of is_anti_list i)"
    by (simp add: sign_of_def)
  note sl = sample_layers_finite[OF dl Cons.prems(2) assms(3,4,5,6),
      of "w ! i" "sign_of is_anti_list i" bg]
  have len': "length (add_sample (1 / (real (agents a) * (s * s)))
                 (w ! i * sign_of is_anti_list i) W (E i)) = length m"
    using add_sample_length[OF lE] Cons.prems(2) by simp
  have rest: "\<forall>i\<in>set is. i < length is_anti_list \<and> i < length w
              \<and> noise R a m (seeds ! i) = Inr (map (map Fin) (E i))"
    using Cons.prems(1) by simp
  note IH = Cons.IH[OF rest len']
  show ?case
    using i by (simp add: Let_def mult sl IH)
qed


lemma add_sample_nth:
  assumes "l < length W" "length E = length W" "j < length (W ! l)"
    "length (E ! l) = length (W ! l)"
  shows "add_sample c rm W E ! l ! j = W ! l ! j + c * (rm * (E ! l ! j))"
  using assms by (simp add: add_sample_def)

lemma add_sample_inner_length:
  assumes "l < length W" "length E = length W" "length (E ! l) = length (W ! l)"
  shows "length (add_sample c rm W E ! l) = length (W ! l)"
  using assms by (simp add: add_sample_def)

lemma foldl_add_sample_nth:
  assumes "\<forall>i\<in>set is. length (E i) = length W
             \<and> (\<forall>l<length W. length (E i ! l) = length (W ! l))"
    "l < length W" "j < length (W ! l)"
  shows "length (foldl (\<lambda>W i. add_sample c (f i) W (E i)) W is) = length W
       \<and> length (foldl (\<lambda>W i. add_sample c (f i) W (E i)) W is ! l) = length (W ! l)
       \<and> foldl (\<lambda>W i. add_sample c (f i) W (E i)) W is ! l ! j
           = W ! l ! j + sum_list (map (\<lambda>i. c * (f i * (E i ! l ! j))) is)"
  using assms
proof (induction "is" arbitrary: W)
  case Nil
  then show ?case by simp
next
  case (Cons i "is")
  let ?W1 = "add_sample c (f i) W (E i)"
  have lE: "length (E i) = length W" and li: "\<forall>l<length W. length (E i ! l) = length (W ! l)"
    using Cons.prems(1) by simp_all
  have l1: "length ?W1 = length W" using add_sample_length[OF lE] .
  have in1: "length (?W1 ! k) = length (W ! k)" if "k < length W" for k
    using add_sample_inner_length[OF that lE] li that by simp
  have shapes: "\<forall>i\<in>set is. length (E i) = length ?W1
             \<and> (\<forall>l<length ?W1. length (E i ! l) = length (?W1 ! l))"
    using Cons.prems(1) l1 in1 by simp
  have l': "l < length ?W1" using Cons.prems(2) l1 by simp
  have j': "j < length (?W1 ! l)" using Cons.prems(2,3) in1 by simp
  note IH = Cons.IH[OF shapes l' j']
  have el: "?W1 ! l ! j = W ! l ! j + c * (f i * (E i ! l ! j))"
    using add_sample_nth[OF Cons.prems(2) lE Cons.prems(3)] li Cons.prems(2) by simp
  show ?case using IH l1 in1[OF Cons.prems(2)] el by (simp add: add.assoc)
qed

lemma set_gradients_finite:
  assumes "\<forall>p\<in>set ps. grad p \<noteq> None" "length W = length ps"
  shows "set_gradients ps (map (map Fin) W)
           = Inr (map2 (\<lambda>p w. p\<lparr>grad := Some (map Fin (map uminus w))\<rparr>) ps W)"
  using assms
proof (induction ps arbitrary: W)
  case Nil
  then show ?case by simp
next
  case (Cons p ps)
  from Cons.prems(2) obtain w W' where W: "W = w # W'" "length W' = length ps"
    by (cases W) auto
  obtain t where g: "grad p = Some t" using Cons.prems(1) by auto
  have neg: "map fl_neg (map Fin w) = map Fin (map uminus w)" by simp
  have ok: "\<not> any_nan (map (fl_neg \<circ> Fin) w)" "\<not> any_inf (map (fl_neg \<circ> Fin) w)"
    by (simp_all add: any_nan_def any_inf_def list_ex_iff)
  have IH: "set_gradients ps (map (map Fin) W')
           = Inr (map2 (\<lambda>p w. p\<lparr>grad := Some (map Fin (map uminus w))\<rparr>) ps W')"
    using Cons.IH[OF _ W(2)] Cons.prems(1) by simp
  show ?case
    unfolding W by (simp add: g Let_def ok IH)
qed


lemma fitness_shaping_weights:
  assumes "0 < length returns"
  shows "\<exists>w. fitness_shaping returns = Inr (map Fin w) \<and> length w = length returns
           \<and> sum_list w = 0"
proof -
  have perm: "mset (argsort (map fl_neg returns)) = mset [0..<length returns]"
    using mset_argsort[of "map fl_neg returns"] by simp
  from shape_from_perm[OF perm assms] show ?thesis
    by (auto simp: fitness_shaping_def)
qed

lemma accumulate_gradients_finite:
  assumes "agents a = length returns" "length random_seeds = length returns"
    "length returns \<le> length is_anti_list" "0 < length returns"
    "sigma a = Fin s" "s \<noteq> 0"
    "\<forall>i<length returns.
        noise R a parent_model (random_seeds ! i) = Inr (map (map Fin) (E i))"
    "optimize_sigma a \<longrightarrow> beta a = Some b"
  shows "\<exists>w. fitness_shaping returns = Inr (map Fin w) \<and> length w = length returns
           \<and> sum_list w = 0
           \<and> accumulate_gradients R a parent_model returns random_seeds is_anti_list =
               Inr (map (map Fin)
                      (accumulated_weights (1 / (real (agents a) * (s * s))) w is_anti_list E
                         parent_model (length returns)),
                    accumulated_beta a b w E (length returns))"
proof -
  obtain w where w: "fitness_shaping returns = Inr (map Fin w)" "length w = length returns"
    "sum_list w = 0"
    using fitness_shaping_weights[OF assms(4)] by blast
  let ?Z = "map (\<lambda>p. replicate (length (data p)) (0 :: real)) parent_model"
  have z: "map (\<lambda>p. replicate (length (data p)) (Fin 0)) parent_model = map (map Fin) ?Z"
    by simp
  have pre: "\<forall>i\<in>set [0..<length returns]. i < length is_anti_list \<and> i < length w
              \<and> noise R a parent_model (random_seeds ! i) = Inr (map (map Fin) (E i))"
    using assms(3,7) w(2) by simp
  have n0: "agents a \<noteq> 0" using assms(1,4) by simp
  have l0: "length ?Z = length parent_model" by simp
  note sl = sample_loop_finite[OF pre l0 assms(5,6) n0 assms(8), of "Fin 0"]
  have "accumulate_gradients R a parent_model returns random_seeds is_anti_list =
          sample_loop R a parent_model (map Fin w) random_seeds is_anti_list
            [0..<length returns] (map (map Fin) ?Z) (Fin 0)"
    unfolding accumulate_gradients_def z using assms(1,2) w(1) by simp
  then show ?thesis using w sl by (auto simp: accumulated_weights_def accumulated_beta_def)
qed

lemma np_sum_squares:
  "np_sum (map ((\<lambda>e. fl_mul e e) \<circ> Fin) e) = Fin (sum_list (map (\<lambda>y. y * y) e))"
proof -
  have "map ((\<lambda>e. fl_mul e e) \<circ> Fin) e = map Fin (map (\<lambda>y. y * y) e)" by simp
  then show ?thesis by (simp only: np_sum_Fin)
qed

lemma beta_term_finite:
  assumes "agents a \<noteq> 0"
  shows "beta_term a (Fin b) (Fin r) (map Fin e)
           = Fin (1 / (real (agents a) * exp b) * r * (sum_list (map (\<lambda>y. y * y) e) - 1))"
  using assms by (simp add: beta_term_def np_sum_squares fl_sub_def)

lemma beta_accumulate_finite:
  assumes "agents a \<noteq> 0"
  shows "beta_accumulate a (Fin b) (Fin r) (Fin b0) E
           = Fin (b0 + sum_list (map (\<lambda>e. 1 / (real (agents a) * exp b) * r
                                        * (sum_list (map (\<lambda>y. y * y) e) - 1)) E))"
proof -
  have "foldl (\<lambda>acc e. fl_add acc (beta_term a (Fin b) (Fin r) (map Fin e))) (Fin b0) E
          = Fin (b0 + sum_list (map (\<lambda>e. 1 / (real (agents a) * exp b) * r
                                        * (sum_list (map (\<lambda>y. y * y) e) - 1)) E))"
    by (induction E arbitrary: b0) (simp_all add: beta_term_finite[OF assms] add.assoc)
  then show ?thesis by (simp add: beta_accumulate_def)
qed

lemma beta_samples_finite:
  assumes "agents a \<noteq> 0"
  shows "foldl (\<lambda>acc i. beta_accumulate a (Fin b) (Fin (w i)) acc (E i)) (Fin b0) is
           = Fin (b0 + sum_list (map (\<lambda>i. sum_list (map (\<lambda>e. 1 / (real (agents a) * exp b) * w i
                                        * (sum_list (map (\<lambda>y. y * y) e) - 1)) (E i))) is))"
  by (induction "is" arbitrary: b0) (simp_all add: beta_accumulate_finite[OF assms] add.assoc)


lemma sum_list_upt: "sum_list (map f [0..<n]) = (\<Sum>i<n. (f i :: real))"
  by (induction n) simp_all

lemma noise_shapes:
  assumes "noise R a m seed = Inr (map (map Fin) E)" "\<forall>p\<in>set m. param_ok p"
  shows "length E = length m \<and> (\<forall>l<length m. length (E ! l) = length (data (m ! l)))"
proof -
  have "draw_layers R a m (manual_seed R seed) = Inr (map (map Fin) E)"
    using assms(1) by (simp add: noise_def)
  from draw_layers_lengths[OF this] assms(2)
  have "length (map (map Fin) E) = length m
      \<and> (\<forall>l<length m. length (map (map Fin) E ! l) = length (data (m ! l)))"
    by blast
  then show ?thesis by auto
qed

lemma accumulated_weights_nth:
  assumes "\<forall>i<N. length (E i) = length m
             \<and> (\<forall>l<length m. length (E i ! l) = length (data (m ! l)))"
    "l < length m" "j < length (data (m ! l))"
  shows "length (accumulated_weights c w anti E m N) = length m
       \<and> length (accumulated_weights c w anti E m N ! l) = length (data (m ! l))
       \<and> accumulated_weights c w anti E m N ! l ! j
           = c * (\<Sum>i<N. w ! i * sign_of anti i * (E i ! l ! j))"
proof -
  let ?Z = "map (\<lambda>p. replicate (length (data p)) (0 :: real)) m"
  have shapes: "\<forall>i\<in>set [0..<N]. length (E i) = length ?Z
             \<and> (\<forall>l<length ?Z. length (E i ! l) = length (?Z ! l))"
    using assms(1) by simp
  have l0: "l < length ?Z" using assms(2) by simp
  have j0: "j < length (?Z ! l)" using assms(2,3) by simp
  from foldl_add_sample_nth[OF shapes l0 j0, of c "\<lambda>i. w ! i * sign_of anti i"]
  have len: "length (accumulated_weights c w anti E m N) = length ?Z"
      "length (accumulated_weights c w anti E m N ! l) = length (?Z ! l)"
    and v: "accumulated_weights c w anti E m N ! l ! j = ?Z ! l ! j
                + sum_list (map (\<lambda>i. c * (w ! i * sign_of anti i * (E i ! l ! j))) [0..<N])"
    unfolding accumulated_weights_def by blast+
  have z: "?Z ! l ! j = 0" using assms(2,3) by simp
  have "sum_list (map (\<lambda>i. c * (w ! i * sign_of anti i * (E i ! l ! j))) [0..<N])
            = c * (\<Sum>i<N. w ! i * sign_of anti i * (E i ! l ! j))"
    unfolding sum_list_upt by (simp only: sum_distrib_left)
  then show ?thesis using len v z assms(2) by simp
qed

lemma accumulated_weights_length:
  assumes "\<forall>i<N. length (E i) = length m"
  shows "length (accumulated_weights c w anti E m N) = length m"
proof -
  have "length (foldl (\<lambda>W i. add_sample c (f i) W (E i)) W is) = length W"
    if "\<forall>i\<in>set is. length (E i) = length W" for W "is" f
    using that by (induction "is" arbitrary: W) (simp_all add: add_sample_length)
  from this[of "[0..<N]" "map (\<lambda>p. replicate (length (data p)) 0) m"] assms
  show ?thesis by (simp add: accumulated_weights_def)
qed

text \<open>
  With a non-zero finite sigma, allocated gradients and finite noise the weight part of
  \<^verbatim>\<open>compute_gradients\<close> cannot fail: what is left is the check of the beta gradient.
\<close>

lemma compute_gradients_split:
  assumes "agents a = length returns" "length random_seeds = length returns"
    "length returns \<le> length is_anti_list" "0 < length returns"
    "sigma a = Fin s" "s \<noteq> 0"
    "\<forall>p\<in>set parent_model. param_ok p"
    "\<forall>i<length returns.
        noise R a parent_model (random_seeds ! i) = Inr (map (map Fin) (E i))"
    "optimize_sigma a \<longrightarrow> beta a = Some b"
  shows "\<exists>w. fitness_shaping returns = Inr (map Fin w) \<and> length w = length returns
           \<and> sum_list w = 0
           \<and> accumulate_gradients R a parent_model returns random_seeds is_anti_list =
               Inr (map (map Fin)
                      (accumulated_weights (1 / (real (agents a) * (s * s))) w is_anti_list E
                         parent_model (length returns)),
                    accumulated_beta a b w E (length returns))
           \<and> compute_gradients R a parent_model returns random_seeds is_anti_list =
               (case set_beta_gradient a parent_model
                       (accumulated_beta a b w E (length returns)) of
                  Inl e \<Rightarrow> Inl e
                | Inr bgrad \<Rightarrow>
                    Inr (map2 (\<lambda>p w. p\<lparr>grad := Some (map Fin (map uminus w))\<rparr>) parent_model
                           (accumulated_weights (1 / (real (agents a) * (s * s))) w
                              is_anti_list E parent_model (length returns)),
                         bgrad))"
proof -
  from accumulate_gradients_finite[OF assms(1-6) assms(8,9)]
  obtain w where w: "fitness_shaping returns = Inr (map Fin w)" "length w = length returns"
    "sum_list w = 0"
    and acc: "accumulate_gradients R a parent_model returns random_seeds is_anti_list =
               Inr (map (map Fin)
                      (accumulated_weights (1 / (real (agents a) * (s * s))) w is_anti_list E
                         parent_model (length returns)),
                    accumulated_beta a b w E (length returns))"
    by blast
  let ?W = "accumulated_weights (1 / (real (agents a) * (s * s))) w is_anti_list E
                         parent_model (length returns)"
  have "\<forall>i<length returns. length (E i) = length parent_model"
    using noise_shapes assms(7,8) by blast
  then have lenW: "length ?W = length parent_model" by (rule accumulated_weights_length)
  have gr: "\<forall>p\<in>set parent_model. grad p \<noteq> None"
    using assms(7) by (auto simp: param_ok_def split: option.splits)
  have cg: "compute_gradients R a parent_model returns random_seeds is_anti_list =
               (case set_beta_gradient a parent_model
                       (accumulated_beta a b w E (length returns)) of
                  Inl e \<Rightarrow> Inl e
                | Inr bgrad \<Rightarrow>
                    Inr (map2 (\<lambda>p w. p\<lparr>grad := Some (map Fin (map uminus w))\<rparr>) parent_model ?W,
                         bgrad))"
    by (simp add: compute_gradients_def acc set_gradients_finite[OF gr lenW] split: sum.splits)
  show ?thesis using w acc cg by blast
qed

lemma accumulated_beta_finite:
  assumes "agents a \<noteq> 0"
  shows "accumulated_beta a (Fin b) w E N
           = Fin (if optimize_sigma a
                  then sum_list (map (\<lambda>i. sum_list (map (\<lambda>e. 1 / (real (agents a) * exp b) * (w ! i)
                                        * (sum_list (map (\<lambda>y. y * y) e) - 1)) (E i))) [0..<N])
                  else 0)"
proof (cases "optimize_sigma a")
  case True
  then show ?thesis
    using beta_samples_finite[OF assms, of b "\<lambda>i. w ! i" E 0 "[0..<N]"]
    by (simp add: accumulated_beta_def)
next
  case False
  have "foldl (\<lambda>acc i. acc) (Fin 0) is = Fin 0" for "is" :: "nat list"
    by (induction "is") simp_all
  then show ?thesis using False by (simp add: accumulated_beta_def)
qed

lemma set_beta_gradient_finite:
  assumes "optimize_sigma a \<longrightarrow> (\<exists>b. beta a = Some b) \<and> m \<noteq> []"
  shows "set_beta_gradient a m (Fin x) = Inr (if optimize_sigma a then Some (Fin (- x)) else None)"
  using assms by (auto simp: set_beta_gradient_def)

text \<open>
  C1. For \<open>N\<close> evaluations, a finite non-zero sigma, allocated gradients and finite
  noise \<open>E i\<close> of sample \<open>i\<close>, the accumulated gradient of every element of every
  parameter tensor is \<open>1 / (N * sigma^2)\<close> times the sum over the samples of
  weight times antithetic sign times noise, where the weights are the shaped returns,
  and \<^verbatim>\<open>compute_gradients\<close> stores its negative on the parameter.
\<close>

theorem parameter_gradient_estimate:
  assumes "agents a = length returns" "length random_seeds = length returns"
    "length returns \<le> length is_anti_list" "0 < length returns"
    "sigma a = Fin s" "s \<noteq> 0"
    "\<forall>p\<in>set parent_model. param_ok p"
    "\<forall>i<length returns.
        noise R a parent_model (random_seeds ! i) = Inr (map (map Fin) (E i))"
    "optimize_sigma a \<longrightarrow> (\<exists>b. beta a = Some (Fin b)) \<and> parent_model \<noteq> []"
  shows "\<exists>w W bg m' bgrad.
      fitness_shaping returns = Inr (map Fin w)
    \<and> accumulate_gradients R a parent_model returns random_seeds is_anti_list
        = Inr (map (map Fin) W, bg)
    \<and> compute_gradients R a parent_model returns random_seeds is_anti_list = Inr (m', bgrad)
    \<and> length W = length parent_model \<and> length m' = length parent_model
    \<and> (\<forall>l<length parent_model.
          length (W ! l) = length (data (parent_model ! l))
        \<and> (\<forall>j<length (data (parent_model ! l)).
              W ! l ! j = 1 / (real (length returns) * s\<^sup>2)
                          * (\<Sum>i<length returns. w ! i * sign_of is_anti_list i * (E i ! l ! j))
            \<and> (\<exists>t. grad (m' ! l) = Some t \<and> length t = length (data (parent_model ! l))
                   \<and> t ! j = Fin (- (W ! l ! j)))))"
proof -
  let ?N = "length returns"
  let ?c = "1 / (real (agents a) * (s * s))"
  obtain b where b: "optimize_sigma a \<longrightarrow> beta a = Some (Fin b)"
    using assms(9) by (cases "optimize_sigma a") auto
  from compute_gradients_split[OF assms(1-8) b]
  obtain w where w: "fitness_shaping returns = Inr (map Fin w)"
    and acc: "accumulate_gradients R a parent_model returns random_seeds is_anti_list =
               Inr (map (map Fin) (accumulated_weights ?c w is_anti_list E parent_model ?N),
                    accumulated_beta a (Fin b) w E ?N)"
    and cg0: "compute_gradients R a parent_model returns random_seeds is_anti_list =
               (case set_beta_gradient a parent_model (accumulated_beta a (Fin b) w E ?N) of
                  Inl e \<Rightarrow> Inl e
                | Inr bgrad \<Rightarrow>
                    Inr (map2 (\<lambda>p w. p\<lparr>grad := Some (map Fin (map uminus w))\<rparr>) parent_model
                           (accumulated_weights ?c w is_anti_list E parent_model ?N),
                         bgrad))"
    by blast
  let ?W = "accumulated_weights ?c w is_anti_list E parent_model ?N"
  let ?m' = "map2 (\<lambda>p w. p\<lparr>grad := Some (map Fin (map uminus w))\<rparr>) parent_model ?W"
  have n0: "agents a \<noteq> 0" using assms(1,4) by simp
  have shapes: "\<forall>i<?N. length (E i) = length parent_model
             \<and> (\<forall>l<length parent_model. length (E i ! l) = length (data (parent_model ! l)))"
    using noise_shapes assms(7,8) by blast
  have lenW: "length ?W = length parent_model"
    using shapes by (intro accumulated_weights_length) blast
  obtain x where x: "accumulated_beta a (Fin b) w E ?N = Fin x"
    using accumulated_beta_finite[OF n0] by blast
  have "set_beta_gradient a parent_model (Fin x)
              = Inr (if optimize_sigma a then Some (Fin (- x)) else None)"
    using set_beta_gradient_finite[of a parent_model x] assms(9) by blast
  then have cg: "compute_gradients R a parent_model returns random_seeds is_anti_list
              = Inr (?m', if optimize_sigma a then Some (Fin (- x)) else None)"
    unfolding cg0 x by simp
  have lm: "length ?m' = length parent_model" using lenW by simp
  have ceq: "?c = 1 / (real ?N * s\<^sup>2)" using assms(1) by (simp add: power2_eq_square)
  have final: "\<forall>l<length parent_model.
          length (?W ! l) = length (data (parent_model ! l))
        \<and> (\<forall>j<length (data (parent_model ! l)).
              ?W ! l ! j = 1 / (real ?N * s\<^sup>2)
                          * (\<Sum>i<?N. w ! i * sign_of is_anti_list i * (E i ! l ! j))
            \<and> (\<exists>t. grad (?m' ! l) = Some t \<and> length t = length (data (parent_model ! l))
                   \<and> t ! j = Fin (- (?W ! l ! j))))"
  proof (intro allI impI)
    fix l assume l: "l < length parent_model"
    have lw: "length (?W ! l) = length (data (parent_model ! l))"
    proof -
      have "length (foldl (\<lambda>W i. add_sample ?c (f i) W (E i)) W is ! l) = length (W ! l)"
        if "\<forall>i\<in>set is. length (E i) = length W
              \<and> (\<forall>l<length W. length (E i ! l) = length (W ! l))" "l < length W"
        for W "is" f
        using that
      proof (induction "is" arbitrary: W)
        case Nil
        then show ?case by simp
      next
        case (Cons i "is")
        let ?W1 = "add_sample ?c (f i) W (E i)"
        have a: "length ?W1 = length W" using Cons.prems(1) by (simp add: add_sample_length)
        have b: "length (?W1 ! k) = length (W ! k)" if "k < length W" for k
          using add_sample_inner_length[OF that, of "E i"] Cons.prems(1) that by simp
        have "length (foldl (\<lambda>W i. add_sample ?c (f i) W (E i)) ?W1 is ! l) = length (?W1 ! l)"
          using Cons.IH[of ?W1] Cons.prems a b by simp
        then show ?case using b[OF Cons.prems(2)] by simp
      qed
      from this[of "[0..<?N]" "map (\<lambda>p. replicate (length (data p)) 0) parent_model"]
        shapes l
      show ?thesis by (simp add: accumulated_weights_def)
    qed
    have ml: "?m' ! l = (parent_model ! l)\<lparr>grad := Some (map Fin (map uminus (?W ! l)))\<rparr>"
      using l lenW by simp
    show "length (?W ! l) = length (data (parent_model ! l))
        \<and> (\<forall>j<length (data (parent_model ! l)).
              ?W ! l ! j = 1 / (real ?N * s\<^sup>2)
                          * (\<Sum>i<?N. w ! i * sign_of is_anti_list i * (E i ! l ! j))
            \<and> (\<exists>t. grad (?m' ! l) = Some t \<and> length t = length (data (parent_model ! l))
                   \<and> t ! j = Fin (- (?W ! l ! j))))"
    proof (intro conjI allI impI)
      show "length (?W ! l) = length (data (parent_model ! l))" by (rule lw)
      fix j assume j: "j < length (data (parent_model ! l))"
      show "?W ! l ! j = 1 / (real ?N * s\<^sup>2)
                          * (\<Sum>i<?N. w ! i * sign_of is_anti_list i * (E i ! l ! j))"
        using accumulated_weights_nth[OF shapes l j, of ?c w is_anti_list] ceq by simp
      have "grad (?m' ! l) = Some (map Fin (map uminus (?W ! l)))" unfolding ml by simp
      moreover have "length (map Fin (map uminus (?W ! l))) = length (data (parent_model ! l))"
        using lw by simp
      moreover have "map Fin (map uminus (?W ! l)) ! j = Fin (- (?W ! l ! j))"
        using j lw by simp
      ultimately show "\<exists>t. grad (?m' ! l) = Some t
            \<and> length t = length (data (parent_model ! l)) \<and> t ! j = Fin (- (?W ! l ! j))"
        by blast
    qed
  qed
  show ?thesis
    using w acc cg lenW lm final by blast
qed

theorem parameter_gradient_estimate_witness:
  "\<exists>m' bgrad t.
     compute_gradients counter_generator
       \<lparr>agents = 2, sigma = Fin 1, beta = None, optimize_sigma = False,
        safe_mutation = False, max_generations = 10\<rparr>
       [\<lparr>data = [Fin 0], grad = Some [Fin 1]\<rparr>] [Fin 1, Fin 3] [2, 2] [True, False]
       = Inr (m', bgrad)
     \<and> grad (m' ! 0) = Some t \<and> t ! 0 = Fin (- 1)"
proof -
  let ?a = "\<lparr>agents = 2, sigma = Fin 1, beta = None, optimize_sigma = False,
        safe_mutation = False, max_generations = 10\<rparr>"
  let ?m = "[\<lparr>data = [Fin 0], grad = Some [Fin 1]\<rparr>]"
  let ?r = "[Fin 1, Fin 3]"
  let ?s = "[2, 2] :: int list"
  let ?anti = "[True, False]"
  have n: "noise counter_generator ?a ?m 2 = Inr (map (map Fin) [[2]])"
    by (simp add: noise_def get_pertubation_def counter_generator_def)
  have h8: "\<forall>i<length ?r. noise counter_generator ?a ?m (?s ! i)
               = Inr (map (map Fin) ((\<lambda>i. [[2]]) i))"
    using n by (simp add: less_Suc_eq)
  have h9: "optimize_sigma ?a \<longrightarrow> (\<exists>b. beta ?a = Some (Fin b)) \<and> ?m \<noteq> []" by simp
  have h7: "\<forall>p\<in>set ?m. param_ok p" by (simp add: param_ok_def)
  from parameter_gradient_estimate[of ?a ?r ?s ?anti 1 ?m counter_generator "\<lambda>i. [[2]]",
      OF _ _ _ _ _ _ h7 h8 h9]
  obtain w W bg m' bgrad where
    w: "fitness_shaping ?r = Inr (map Fin w)"
    and cg: "compute_gradients counter_generator ?a ?m ?r ?s ?anti = Inr (m', bgrad)"
    and el: "\<forall>l<length ?m. \<forall>j<length (data (?m ! l)).
              W ! l ! j = 1 / (real (length ?r) * 1\<^sup>2)
                          * (\<Sum>i<length ?r. w ! i * sign_of ?anti i * ([[2]] ! l ! j))
            \<and> (\<exists>t. grad (m' ! l) = Some t \<and> length t = length (data (?m ! l))
                   \<and> t ! j = Fin (- (W ! l ! j)))"
    by auto
  have "map Fin w = [Fin (- 1 / 2), Fin (1 / 2)]"
    using w fitness_shaping_example by simp
  then have wv: "w = [- 1 / 2, 1 / 2]" by auto
  from el have W: "W ! 0 ! 0 = 1 / (real (length ?r) * 1\<^sup>2)
                          * (\<Sum>i<length ?r. w ! i * sign_of ?anti i * ([[2]] ! 0 ! 0))"
    and t: "\<exists>t. grad (m' ! 0) = Some t \<and> t ! 0 = Fin (- (W ! 0 ! 0))"
    by auto
  have "W ! 0 ! 0 = 1"
    unfolding W wv by (simp add: sign_of_def lessThan_Suc numeral_2_eq_2)
  then show ?thesis using cg t by auto
qed







lemma set_gradients_result:
  assumes "set_gradients ps ws = Inr ps'"
  shows "\<forall>p\<in>set ps'. \<exists>t. grad p = Some t \<and> \<not> any_nan t \<and> \<not> any_inf t"
  using assms
proof (induction ps ws arbitrary: ps' rule: set_gradients.induct)
  case (1 ws)
  then show ?case by simp
next
  case (2 p ps)
  then show ?case by simp
next
  case (3 p ps w ws)
  from "3.prems" obtain t where g: "grad p = Some t" by (auto split: option.splits)
  from "3.prems" have ok: "\<not> any_nan (map fl_neg w)" "\<not> any_inf (map fl_neg w)"
    by (auto simp: g Let_def split: if_splits)
  from "3.prems" obtain q where rec: "set_gradients ps ws = Inr q"
    and r: "ps' = p\<lparr>grad := Some (map fl_neg w)\<rparr> # q"
    by (auto simp: g Let_def split: if_splits sum.splits)
  from "3.IH"[OF g refl ok rec] show ?case using r ok by simp
qed

text \<open>
  What the assertions of \<^verbatim>\<open>compute_gradients\<close> do guarantee: when it returns, no
  stored parameter gradient holds NaN or Inf, and the beta gradient is not NaN.
\<close>

lemma compute_gradients_checked:
  assumes "compute_gradients R a m returns seeds anti = Inr (m', bgrad)"
  shows "(\<forall>p\<in>set m'. \<exists>t. grad p = Some t \<and> \<not> any_nan t \<and> \<not> any_inf t)
       \<and> (\<forall>b. bgrad = Some b \<longrightarrow> \<not> isnan b)"
proof -
  from assms obtain W bg where sg: "set_gradients m W = Inr m'"
    and sb: "set_beta_gradient a m bg = Inr bgrad"
    by (auto simp: compute_gradients_def split: sum.splits)
  have "\<forall>b. bgrad = Some b \<longrightarrow> \<not> isnan b"
    using sb by (auto simp: set_beta_gradient_def split: if_splits option.splits)
  then show ?thesis using set_gradients_result[OF sg] by blast
qed


lemma shaped_weights_four:
  assumes "fitness_shaping [Fin 4, Fin 3, Fin 2, Fin 1] = Inr (map Fin w)"
  shows "length w = 4 \<and> 0 < w ! 0 \<and> 0 < w ! 1 \<and> w ! 2 < 0 \<and> w ! 3 < 0"
proof -
  have si: "argsort (map fl_neg [Fin 4, Fin 3, Fin 2, Fin 1]) = [0, 1, 2, 3]"
    by (simp add: argsort_def key_le_def upt_rec)
  have up: "[0..<4] = [0, 1, 2, 3]" by (simp add: upt_rec)
  have perm: "mset [0, 1, 2, 3 :: nat] = mset [0..<4]" unfolding up by simp
  from shape_from_perm[OF perm] obtain v where
    v: "shape_from [0, 1, 2, 3] 4 = Inr (map Fin v)" "length v = 4"
    and el: "\<forall>k<4. v ! ([0, 1, 2, 3] ! k) =
               rank_utility 4 k / sum_list (map (rank_utility 4) [0..<4]) - 1 / real 4"
    by auto
  have len4: "length [Fin 4, Fin 3, Fin 2, Fin 1] = 4" by simp
  have "fitness_shaping [Fin 4, Fin 3, Fin 2, Fin 1] = Inr (map Fin v)"
    unfolding fitness_shaping_def si len4 by (rule v(1))
  then have "map Fin w = map Fin v" using assms by simp
  then have wv: "w = v" by (simp add: inj_on_def)
  have l98: "3 * ln (2 :: real) < 2 * ln 3"
  proof -
    have "ln ((2 :: real) ^ 3) < ln (3 ^ 2)" by simp
    then show ?thesis by (simp only: ln_realpow)
  qed
  have l2: "0 < ln (2 :: real)" "0 < ln (3 :: real)" "ln (3 :: real) < ln 4" by simp_all
  have r0: "rank_utility 4 0 = ln 3" by (simp add: rank_utility_def)
  have r1: "rank_utility 4 1 = ln 3 - ln 2"
    using l98 l2 by (simp add: rank_utility_def max_def)
  have r2: "rank_utility 4 2 = 0" by (simp add: rank_utility_def)
  have r3: "rank_utility 4 3 = 0" using l2(3) by (simp add: rank_utility_def max_def)
  have S: "sum_list (map (rank_utility 4) [0..<4]) = 2 * ln 3 - ln 2"
    unfolding up using r0 r1 r2 r3 by simp
  have Spos: "0 < 2 * ln (3 :: real) - ln 2" using l98 l2 by linarith
  have v0: "v ! 0 = ln 3 / (2 * ln 3 - ln 2) - 1 / 4"
    and v1: "v ! 1 = (ln 3 - ln 2) / (2 * ln 3 - ln 2) - 1 / 4"
    and v2: "v ! 2 = - 1 / 4" and v3: "v ! 3 = - 1 / 4"
    using el[rule_format, of 0] el[rule_format, of 1] el[rule_format, of 2]
      el[rule_format, of 3] r0 r1 r2 r3 S by simp_all
  have key: "0 < x / S - 1 / 4" if "0 < S" "S < 4 * x" for x S :: real
    using that by (simp add: field_simps)
  have "2 * ln (3 :: real) - ln 2 < 4 * ln 3" using l2 by linarith
  then have "0 < v ! 0" unfolding v0 using key[OF Spos] by blast
  moreover have "2 * ln (3 :: real) - ln 2 < 4 * (ln 3 - ln 2)" using l98 by argo
  then have "0 < v ! 1" unfolding v1 using key[OF Spos] by blast
  ultimately show ?thesis using v(2) v2 v3 wv by simp
qed

text \<open>
  C9, the beta gradient: a failing input. With \<open>beta = -inf\<close>, where \<open>exp(beta)\<close> is 0,
  four samples whose beta terms all have the same sign give an infinite beta gradient;
  the parameter gradients are finite, the assertion on the beta gradient tests NaN only,
  and \<^verbatim>\<open>compute_gradients\<close> returns with the infinite gradient stored.
\<close>

theorem infinite_beta_gradient_accepted:
  "\<exists>g. compute_gradients counter_generator
       \<lparr>agents = 4, sigma = Fin 1, beta = Some NInf, optimize_sigma = True,
        safe_mutation = False, max_generations = 10\<rparr>
       [\<lparr>data = [Fin 0], grad = Some [Fin 1]\<rparr>]
       [Fin 4, Fin 3, Fin 2, Fin 1] [2, 2, 0, 0] [True, False, True, False]
       = Inr ([\<lparr>data = [Fin 0], grad = Some [Fin g]\<rparr>], Some NInf)
     \<and> isinf NInf"
proof -
  let ?a = "\<lparr>agents = 4, sigma = Fin 1, beta = Some NInf, optimize_sigma = True,
        safe_mutation = False, max_generations = 10\<rparr>"
  let ?m = "[\<lparr>data = [Fin 0], grad = Some [Fin 1]\<rparr>]"
  let ?r = "[Fin 4, Fin 3, Fin 2, Fin 1]"
  let ?s = "[2, 2, 0, 0] :: int list"
  let ?anti = "[True, False, True, False]"
  let ?E = "\<lambda>i :: nat. if i < 2 then [[2]] else [[0 :: real]]"
  have n2: "noise counter_generator ?a ?m 2 = Inr (map (map Fin) [[2]])"
    by (simp add: noise_def get_pertubation_def counter_generator_def)
  have n0: "noise counter_generator ?a ?m 0 = Inr (map (map Fin) [[0]])"
    by (simp add: noise_def get_pertubation_def counter_generator_def)
  have h8: "\<forall>i<length ?r. noise counter_generator ?a ?m (?s ! i)
               = Inr (map (map Fin) (?E i))"
    using n2 n0 by (simp add: less_Suc_eq)
  have h7: "\<forall>p\<in>set ?m. param_ok p" by (simp add: param_ok_def)
  have h9: "optimize_sigma ?a \<longrightarrow> beta ?a = Some NInf" by simp
  from compute_gradients_split[of ?a ?r ?s ?anti 1 ?m counter_generator ?E NInf,
      OF _ _ _ _ _ _ h7 h8 h9]
  obtain w where w: "fitness_shaping ?r = Inr (map Fin w)"
    and cg: "compute_gradients counter_generator ?a ?m ?r ?s ?anti =
               (case set_beta_gradient ?a ?m (accumulated_beta ?a NInf w ?E (length ?r)) of
                  Inl e \<Rightarrow> Inl e
                | Inr bgrad \<Rightarrow>
                    Inr (map2 (\<lambda>p w. p\<lparr>grad := Some (map Fin (map uminus w))\<rparr>) ?m
                           (accumulated_weights (1 / (real (agents ?a) * (1 * 1))) w
                              ?anti ?E ?m (length ?r)),
                         bgrad))"
    by auto
  from shaped_weights_four[OF w] have sg: "0 < w ! 0" "0 < w ! 1" "w ! 2 < 0" "w ! 3 < 0"
    by simp_all
  have up: "[0..<length ?r] = [0, 1, 2, 3]" by (simp add: upt_rec)
  have t_pos: "beta_term ?a NInf (Fin x) [Fin 2] = PInf" if "0 < x" for x
    using that by (simp add: beta_term_def np_sum_def fl_sub_def inf_times_def)
  have t_neg: "beta_term ?a NInf (Fin x) [Fin 0] = PInf" if "x < 0" for x
    using that by (simp add: beta_term_def np_sum_def fl_sub_def inf_times_def)
  have sg1: "0 < w ! Suc 0" using sg(2) by simp
  have ab: "accumulated_beta ?a NInf w ?E (length ?r) = PInf"
    unfolding accumulated_beta_def up
    by (simp add: beta_accumulate_def t_pos[OF sg(1)] t_pos[OF sg1]
        t_neg[OF sg(3)] t_neg[OF sg(4)])
  have sb: "set_beta_gradient ?a ?m PInf = Inr (Some NInf)"
    by (simp add: set_beta_gradient_def)
  let ?m' = "map2 (\<lambda>p w. p\<lparr>grad := Some (map Fin (map uminus w))\<rparr>) ?m
                           (accumulated_weights (1 / (real (agents ?a) * (1 * 1))) w
                              ?anti ?E ?m (length ?r))"
  have run: "compute_gradients counter_generator ?a ?m ?r ?s ?anti = Inr (?m', Some NInf)"
    unfolding cg ab sb by (simp only: sum.case)
  let ?AW = "accumulated_weights (1 / (real (agents ?a) * (1 * 1))) w ?anti ?E ?m (length ?r)"
  have shapes: "\<forall>i<length ?r. length (?E i) = length ?m
             \<and> (\<forall>l<length ?m. length (?E i ! l) = length (data (?m ! l)))"
    by simp
  have l0: "0 < length ?m" and j0: "0 < length (data (?m ! 0))" by simp_all
  from accumulated_weights_nth[OF shapes l0 j0]
  have "length ?AW = 1" "length (?AW ! 0) = 1" by simp_all
  then have "?AW = [[?AW ! 0 ! 0]]"
    by (simp add: list_eq_iff_nth_eq)
  then obtain x where x: "?AW = [[x]]" ..
  have "?m' = [\<lparr>data = [Fin 0], grad = Some [Fin (- x)]\<rparr>]" unfolding x by simp
  then show ?thesis using run by auto
qed

end
